theory Spec2Isabelle
  imports Main "HOL-Library.Sublist"
begin

section \<open>The watch/crawl orchestrator of metro-file-map (Watcher.js)\<close>

text \<open>
  A shallow embedding of the class \<open>Watcher\<close> of
  \<^verbatim>\<open>packages/metro-file-map/src/Watcher.js\<close>. \<open>crawl\<close> is a function of the
  options and of what the two crawl strategies do. \<open>watch\<close> and \<open>checkHealth\<close> wait
  for callbacks, so they are a state and a step function: a promise is its settlement,
  and every callback that the event loop runs (a timer, the settlement of the cookie
  write, a backend emitting \<open>ready\<close> or \<open>all\<close>) is one step, together with the promise
  reactions that it queues, which run before the next callback does.

  Left out, as they decide nothing here: the \<open>debug\<close> lines, \<open>perfLogger.annotate\<close>,
  the \<open>status\<close> events, the options given to a backend, \<open>close\<close>, and the path of the
  cookie with its best-effort \<open>unlink\<close>.
\<close>

subsection \<open>Values of the platform\<close>

text \<open>A thrown or rejected value: an \<open>Error\<close> with its \<open>name\<close> and \<open>message\<close>.\<close>

datatype js_error = JsError (error_name: string) (message: string)

text \<open>\<open>Error.prototype.toString\<close>.\<close>

definition toString :: "js_error \<Rightarrow> string" where
  "toString e =
     (if error_name e = [] then message e
      else if message e = [] then error_name e
      else error_name e @ '': '' @ message e)"

text \<open>\<open>s.startsWith(p)\<close>.\<close>

definition startsWith :: "string \<Rightarrow> string \<Rightarrow> bool" where
  "startsWith s p = prefix p s"

text \<open>
  What Watcher.js takes from Node: \<open>path.basename\<close> (which depends on the platform's
  separator), \<open>process.pid\<close> and \<open>FSEventsWatcher.isSupported()\<close>.
\<close>

record platform =
  path_basename :: "string \<Rightarrow> string"
  process_pid :: nat
  fsEventsSupported :: bool

text \<open>\<open>path.posix.basename\<close> without a suffix: trailing separators are skipped.\<close>

definition posix_basename :: "string \<Rightarrow> string" where
  "posix_basename p =
     rev (takeWhile (\<lambda>c. c \<noteq> CHR ''/'') (dropWhile (\<lambda>c. c = CHR ''/'') (rev p)))"

text \<open>The decimal string of a non-negative integer, as \<open>'-' + n\<close> produces it.\<close>

definition digit_char :: "nat \<Rightarrow> char" where
  "digit_char d = ''0123456789'' ! d"

fun string_of_nat :: "nat \<Rightarrow> string" where
  "string_of_nat n =
     (if n < 10 then [digit_char n]
      else string_of_nat (n div 10) @ [digit_char (n mod 10)])"

declare string_of_nat.simps [simp del]

subsection \<open>Data model\<close>

type_synonym Path = string

text \<open>File metadata and the previous state are opaque to Watcher.js: it passes them on.\<close>

type_synonym FileMetaData = nat
type_synonym PreviousState = nat
type_synonym FileData = "Path \<rightharpoonup> FileMetaData"
type_synonym WatchmanClocks = "Path \<rightharpoonup> string"

record CrawlResult =
  changedFiles :: FileData
  clocks :: "WatchmanClocks option"
  removedFiles :: "Path set"

text \<open>
  \<open>WatcherOptions\<close>. \<open>abortSignal\<close> is \<open>Some reason\<close> when the signal is aborted;
  \<open>perfLogger\<close> says whether a logger is present. The console, the ignore pattern and
  the \<open>watch\<close> flag do not influence the control flow modelled here.
\<close>

record WatcherOptions =
  abortSignal :: "js_error option"
  computeSha1 :: bool
  enableSymlinks :: bool
  extensions :: "string list"
  forceNodeFilesystemAPI :: bool
  healthCheckFilePrefix :: string
  ignore :: "string \<Rightarrow> bool"
  perfLogger :: bool
  previousState :: PreviousState
  roots :: "Path list"
  rootDir :: Path
  useWatchman :: bool
  watchmanDeferStates :: "string list"

record CrawlerOptions =
  co_abortSignal :: "js_error option"
  co_computeSha1 :: bool
  co_includeSymlinks :: bool
  co_extensions :: "string list"
  co_forceNodeFilesystemAPI :: bool
  co_ignore :: "string \<Rightarrow> bool"
  co_perfLogger :: bool
  co_previousState :: PreviousState
  co_rootDir :: Path
  co_roots :: "Path list"

subsection \<open>crawl\<close>

text \<open>
  A crawl strategy is called with the crawler options and returns a promise that fulfils
  or rejects; \<open>crawl\<close> also catches a strategy that throws before returning.
\<close>

datatype 'a attempt = Fulfils 'a | Rejects js_error | Throws js_error

fun failure :: "'a attempt \<Rightarrow> js_error option" where
  "failure (Fulfils x) = None"
| "failure (Rejects e) = Some e"
| "failure (Throws e) = Some e"

record crawlers =
  watchmanCrawl :: "CrawlerOptions \<Rightarrow> CrawlResult attempt"
  nodeCrawl :: "CrawlerOptions \<Rightarrow> CrawlResult attempt"

datatype crawler_name = watchman | node

fun crawler :: "crawlers \<Rightarrow> crawler_name \<Rightarrow> CrawlerOptions \<Rightarrow> CrawlResult attempt" where
  "crawler cr watchman = watchmanCrawl cr"
| "crawler cr node = nodeCrawl cr"

text \<open>What a call of \<open>crawl\<close> does besides settling, in order.\<close>

datatype effect =
    PerfPoint string
  | ConsoleWarn string
  | Invoke crawler_name CrawlerOptions

text \<open>\<open>this._options.perfLogger?.point(name)\<close>.\<close>

definition perfPoint :: "WatcherOptions \<Rightarrow> string \<Rightarrow> effect list" where
  "perfPoint options name = (if perfLogger options then [PerfPoint name] else [])"

text \<open>Lines 95-97: the ignore predicate handed to the strategy.\<close>

definition crawl_ignore :: "platform \<Rightarrow> WatcherOptions \<Rightarrow> string \<Rightarrow> bool" where
  "crawl_ignore pf options filePath =
     (ignore options filePath \<or>
      startsWith (path_basename pf filePath) (healthCheckFilePrefix options))"

text \<open>Lines 103-118.\<close>

definition crawlerOptions :: "platform \<Rightarrow> WatcherOptions \<Rightarrow> CrawlerOptions" where
  "crawlerOptions pf options =
     \<lparr> co_abortSignal = abortSignal options,
       co_computeSha1 = computeSha1 options,
       co_includeSymlinks = enableSymlinks options,
       co_extensions = extensions options,
       co_forceNodeFilesystemAPI = forceNodeFilesystemAPI options,
       co_ignore = crawl_ignore pf options,
       co_perfLogger = perfLogger options,
       co_previousState = previousState options,
       co_rootDir = rootDir options,
       co_roots = roots options \<rparr>"

text \<open>Lines 123-131: the text given to \<open>console.warn\<close>.\<close>

definition likely_cause :: string where
  "likely_cause = ''watchman isn'' @ [CHR 0x27] @ ''t running''"

definition retry_warning :: "js_error \<Rightarrow> string" where
  "retry_warning error =
     (''metro-file-map: Watchman crawl failed. Retrying once with node crawler.'' @ [CHR 0x0A] @
      ''  Usually this happens when '') @ likely_cause @
     (''. Create an empty `.watchmanconfig` file in your project'' @ [CHR 0x27] @
      ''s root folder or initialize a git or hg repository in your project.'' @ [CHR 0x0A] @
      ''  '' @ toString error)"

text \<open>Lines 134-138: the message of the error thrown when the retry rejects too.\<close>

definition retry_failed_message :: "js_error \<Rightarrow> js_error \<Rightarrow> string" where
  "retry_failed_message error e =
     (''Crawler retry failed:'' @ [CHR 0x0A] @ ''  Original error: '') @ message error @
     ([CHR 0x0A] @ ''  Retry error: '') @ message e @ [CHR 0x0A]"

text \<open>
  Lines 120-143. \<open>retry\<close> either returns a promise or throws; both end as the rejection
  of the promise of \<open>crawl\<close>, so the model merges them. The first argument stands for the
  test \<open>crawl === watchmanCrawl\<close>.
\<close>

definition retry ::
  "crawlers \<Rightarrow> crawler_name \<Rightarrow> CrawlerOptions \<Rightarrow> js_error \<Rightarrow> effect list \<times> (js_error + CrawlResult)"
where
  "retry cr crawl co error =
     (if crawl = watchman then
        (case nodeCrawl cr co of
           Fulfils delta \<Rightarrow> ([ConsoleWarn (retry_warning error), Invoke node co], Inr delta)
         | Rejects e \<Rightarrow>
             ([ConsoleWarn (retry_warning error), Invoke node co],
              Inl (JsError ''Error'' (retry_failed_message error e)))
         | Throws e \<Rightarrow> ([ConsoleWarn (retry_warning error), Invoke node co], Inl e))
      else ([], Inl error))"

text \<open>Lines 145-155; the debug line is not an effect of the model.\<close>

definition logEnd :: "WatcherOptions \<Rightarrow> CrawlResult \<Rightarrow> effect list \<times> CrawlResult" where
  "logEnd options delta = (perfPoint options ''crawl_end'', delta)"

text \<open>Lines 91-164. \<open>Inl\<close> is the rejection of the promise that \<open>crawl\<close> returns.\<close>

definition crawl ::
  "platform \<Rightarrow> crawlers \<Rightarrow> WatcherOptions \<Rightarrow> effect list \<times> (js_error + CrawlResult)"
where
  "crawl pf cr options =
     (let start = perfPoint options ''crawl_start'';
          crawl_sel = (if useWatchman options then watchman else node)
      in case abortSignal options of
           Some reason \<Rightarrow> (start, Inl reason)
         | None \<Rightarrow>
            (let co = crawlerOptions pf options;
                 (fx, r) = (case crawler cr crawl_sel co of
                              Fulfils delta \<Rightarrow> ([], Inr delta)
                            | Rejects error \<Rightarrow> retry cr crawl_sel co error
                            | Throws error \<Rightarrow> retry cr crawl_sel co error)
             in case r of
                  Inl e \<Rightarrow> (start @ [Invoke crawl_sel co] @ fx, Inl e)
                | Inr delta \<Rightarrow>
                    (let (lx, d) = logEnd options delta
                     in (start @ [Invoke crawl_sel co] @ fx @ lx, Inr d))))"

text \<open>A strategy honours its ignore predicate when it reports no ignored path as changed.\<close>

definition honours_ignore :: "(CrawlerOptions \<Rightarrow> CrawlResult attempt) \<Rightarrow> bool" where
  "honours_ignore strategy =
     (\<forall>co delta p. strategy co = Fulfils delta \<longrightarrow> co_ignore co p \<longrightarrow> changedFiles delta p = None)"

subsection \<open>The state of a Watcher and of its pending promises\<close>

datatype event_kind = ADD_EVENT | CHANGE_EVENT | DELETE_EVENT

record WatcherBackendChangeEvent =
  event :: event_kind
  relativePath :: string

datatype HealthCheckResult =
    HC_error int js_error "string option"
  | HC_success int int "string option"
  | HC_timeout int "string option" "string option"

text \<open>
  The fields are, in this order: \<open>HC_error timeout error watcher\<close>,
  \<open>HC_success timeout timeElapsed watcher\<close>, \<open>HC_timeout timeout watcher pauseReason\<close>.
  Readings of \<open>performance.now()\<close> and the timeout are integers of one clock unit.
\<close>

datatype result_type = type_error | type_success | type_timeout

fun type_of :: "HealthCheckResult \<Rightarrow> result_type" where
  "type_of (HC_error t e w) = type_error"
| "type_of (HC_success t d w) = type_success"
| "type_of (HC_timeout t w p) = type_timeout"

datatype promise = Pending | Fulfilled | Rejected js_error

fun resolve :: "promise \<Rightarrow> promise" where
  "resolve Pending = Fulfilled"
| "resolve p = p"

fun reject :: "js_error \<Rightarrow> promise \<Rightarrow> promise" where
  "reject e Pending = Rejected e"
| "reject e p = p"

text \<open>A timer made by \<open>setTimeout(callback, delay)\<close>.\<close>

datatype timer = Armed nat | Cleared | Fired

fun clearTimeout :: "timer \<Rightarrow> timer" where
  "clearTimeout (Armed d) = Cleared"
| "clearTimeout t = t"

definition MAX_WAIT_TIME :: nat where
  "MAX_WAIT_TIME = 240000"

definition MAX_SAFE_INTEGER :: nat where
  "MAX_SAFE_INTEGER = 9007199254740991"

text \<open>
  One backend made by \<open>createWatcherBackend\<close> (lines 186-228): its root, the call of
  \<open>watch\<close> that made it, the timer \<open>rejectTimeout\<close>, whether \<open>ready\<close> has fired (from
  then on the \<open>all\<close> listener is installed), and the promise returned for it.
\<close>

record BackendSlot =
  bs_root :: Path
  bs_call :: nat
  bs_rejectTimeout :: timer
  bs_ready :: bool
  bs_started :: promise

text \<open>One call of \<open>watch\<close>: the backends it made and the promise it returned.\<close>

record WatchCall =
  wc_backends :: "nat list"
  wc_promise :: promise

text \<open>
  One call of \<open>checkHealth\<close> (lines 248-315): its constants, the variable \<open>result\<close>,
  whether \<open>timeoutPromise\<close>, \<open>creationPromise\<close> and \<open>observationPromise\<close> are fulfilled,
  and the settlement of the promise that the call returns (\<open>Inl\<close>: rejected).
\<close>

record HealthCheck =
  hc_id :: nat
  hc_basename :: string
  hc_timeout :: int
  hc_watcher :: "string option"
  hc_startTime :: int
  result :: "HealthCheckResult option"
  timeoutDone :: bool
  creationDone :: bool
  observationDone :: bool
  returned :: "(js_error + HealthCheckResult) option"

text \<open>
  The fields of the class (lines 77-83) and, below them, what the event loop holds for
  it: the backends and calls of \<open>watch\<close>, the calls of \<open>checkHealth\<close>, and the calls of
  \<open>onChange\<close> made so far (with the backend that emitted the change). A resolver stored
  in \<open>pendingHealthChecks\<close> is named by the call of \<open>checkHealth\<close> that stored it.
\<close>

record Watcher =
  options :: WatcherOptions
  backends :: "nat list"
  instanceId :: nat
  nextHealthCheckId :: nat
  pendingHealthChecks :: "string \<rightharpoonup> nat"
  activeWatcher :: "string option"
  slots :: "BackendSlot list"
  watchCalls :: "WatchCall list"
  checks :: "HealthCheck list"
  forwarded :: "(nat \<times> WatcherBackendChangeEvent) list"

text \<open>Lines 85-89; the second argument is the value of \<open>nextInstanceId\<close>.\<close>

definition Watcher_new :: "WatcherOptions \<Rightarrow> nat \<Rightarrow> Watcher" where
  "Watcher_new opts inst =
     \<lparr> options = opts, backends = [], instanceId = inst, nextHealthCheckId = 0,
       pendingHealthChecks = Map.empty, activeWatcher = None,
       slots = [], watchCalls = [], checks = [], forwarded = [] \<rparr>"

subsection \<open>checkHealth\<close>

text \<open>
  \<open>nullthrows(x)\<close> of the package of that name, without a message argument: it returns
  \<open>x\<close>, or throws \<open>Error('Got unexpected ' + x)\<close> when \<open>x\<close> is null or undefined.
  \<open>None\<close> is the \<open>undefined\<close> that the variable \<open>result\<close> starts with.
\<close>

definition nullthrows :: "'a option \<Rightarrow> js_error + 'a" where
  "nullthrows x =
     (case x of None \<Rightarrow> Inl (JsError ''Error'' ''Got unexpected undefined'')
              | Some r \<Rightarrow> Inr r)"

text \<open>Lines 254-261.\<close>

definition cookie_basename :: "platform \<Rightarrow> Watcher \<Rightarrow> nat \<Rightarrow> string" where
  "cookie_basename pf s healthCheckId =
     healthCheckFilePrefix (options s) @ ''-'' @ string_of_nat (process_pid pf) @ ''-'' @
     string_of_nat (instanceId s) @ ''-'' @ string_of_nat healthCheckId"

text \<open>
  Lines 249-301, up to the \<open>await\<close>: the id, the cookie basename, the three promises
  (the executor of \<open>observationPromise\<close> runs at once and stores its resolver). The last
  argument is the reading of \<open>performance.now()\<close>.
\<close>

definition checkHealth :: "platform \<Rightarrow> int \<Rightarrow> int \<Rightarrow> Watcher \<Rightarrow> Watcher" where
  "checkHealth pf timeout startTime s =
     (let healthCheckId = nextHealthCheckId s;
          basename = cookie_basename pf s healthCheckId
      in s\<lparr> nextHealthCheckId :=
               (if healthCheckId = MAX_SAFE_INTEGER then 0 else healthCheckId + 1),
             pendingHealthChecks := (pendingHealthChecks s)(basename \<mapsto> length (checks s)),
             checks := checks s @
               [\<lparr> hc_id = healthCheckId, hc_basename = basename, hc_timeout = timeout,
                  hc_watcher = activeWatcher s, hc_startTime = startTime, result = None,
                  timeoutDone = False, creationDone = False, observationDone = False,
                  returned = None \<rparr>] \<rparr>)"

text \<open>
  Lines 302-314, the code after the \<open>await\<close>: it runs once, when \<open>timeoutPromise\<close> is
  fulfilled or \<open>creationPromise\<close> and then \<open>observationPromise\<close> are.
\<close>

definition afterRace :: "nat \<Rightarrow> Watcher \<Rightarrow> Watcher" where
  "afterRace c s =
     (let h = checks s ! c
      in if returned h = None \<and> (timeoutDone h \<or> (creationDone h \<and> observationDone h))
         then s\<lparr> pendingHealthChecks := (pendingHealthChecks s)(hc_basename h := None),
                 checks := (checks s)[c := h\<lparr> returned := Some (nullthrows (result h)) \<rparr>] \<rparr>
         else s)"

text \<open>A reaction of call \<open>c\<close> runs, then whatever the race has been waiting for.\<close>

definition react :: "nat \<Rightarrow> (HealthCheck \<Rightarrow> HealthCheck) \<Rightarrow> Watcher \<Rightarrow> Watcher" where
  "react c f s = afterRace c (s\<lparr> checks := (checks s)[c := f (checks s ! c)] \<rparr>)"

text \<open>Lines 264-275: the timer fires; \<open>pr\<close> is what \<open>getPauseReason()\<close> returns then.\<close>

definition onTimeout :: "nat \<Rightarrow> string option \<Rightarrow> Watcher \<Rightarrow> Watcher" where
  "onTimeout c pr s =
     (if c < length (checks s) \<and> \<not> timeoutDone (checks s ! c) then
        react c (\<lambda>h. h\<lparr> timeoutDone := True,
                        result := (if result h = None
                                   then Some (HC_timeout (hc_timeout h) (hc_watcher h)
                                                (if backends s = [] then None else pr))
                                   else result h) \<rparr>) s
      else s)"

text \<open>Lines 278-289: the write of the cookie fulfils, or rejects and is caught.\<close>

definition onWriteDone :: "nat \<Rightarrow> Watcher \<Rightarrow> Watcher" where
  "onWriteDone c s =
     (if c < length (checks s) \<and> \<not> creationDone (checks s ! c) then
        react c (\<lambda>h. h\<lparr> creationDone := True \<rparr>) s
      else s)"

definition onWriteFailed :: "nat \<Rightarrow> js_error \<Rightarrow> Watcher \<Rightarrow> Watcher" where
  "onWriteFailed c error s =
     (if c < length (checks s) \<and> \<not> creationDone (checks s ! c) then
        react c (\<lambda>h. h\<lparr> creationDone := True,
                        result := (if result h = None
                                   then Some (HC_error (hc_timeout h) error (hc_watcher h))
                                   else result h) \<rparr>) s
      else s)"

text \<open>Lines 290-301: the resolver stored by call \<open>c\<close> is called.\<close>

definition resolveHealthCheck :: "nat \<Rightarrow> int \<Rightarrow> Watcher \<Rightarrow> Watcher" where
  "resolveHealthCheck c now s =
     (if c < length (checks s) \<and> \<not> observationDone (checks s ! c) then
        react c (\<lambda>h. h\<lparr> observationDone := True,
                        result := (if result h = None
                                   then Some (HC_success (hc_timeout h) (now - hc_startTime h)
                                                (hc_watcher h))
                                   else result h) \<rparr>) s
      else s)"

text \<open>Lines 235-241.\<close>

definition handleHealthCheckObservation :: "string \<Rightarrow> int \<Rightarrow> Watcher \<Rightarrow> Watcher" where
  "handleHealthCheckObservation basename now s =
     (case pendingHealthChecks s basename of
        None \<Rightarrow> s
      | Some c \<Rightarrow> resolveHealthCheck c now s)"

subsection \<open>watch\<close>

text \<open>Lines 169-181.\<close>

definition watcherName :: "platform \<Rightarrow> WatcherOptions \<Rightarrow> string" where
  "watcherName pf opts =
     (if useWatchman opts then ''watchman''
      else if fsEventsSupported pf then ''fsevents'' else ''node'')"

text \<open>
  Line 230: \<open>Promise.all\<close> over the backends' promises, read again after each of them
  settles: the first rejection rejects, all fulfilled fulfils and stores \<open>_backends\<close>.
\<close>

definition first_rejection :: "promise list \<Rightarrow> js_error option" where
  "first_rejection ps =
     (case filter (\<lambda>p. p \<noteq> Pending \<and> p \<noteq> Fulfilled) ps of
        Rejected e # _ \<Rightarrow> Some e
      | _ \<Rightarrow> None)"

definition settle_watch :: "nat \<Rightarrow> Watcher \<Rightarrow> Watcher" where
  "settle_watch k s =
     (let w = watchCalls s ! k;
          ps = map (\<lambda>i. bs_started (slots s ! i)) (wc_backends w)
      in if wc_promise w \<noteq> Pending then s
         else case first_rejection ps of
                Some e \<Rightarrow> s\<lparr> watchCalls := (watchCalls s)[k := w\<lparr> wc_promise := Rejected e \<rparr>] \<rparr>
              | None \<Rightarrow>
                  if list_all (\<lambda>p. p = Fulfilled) ps
                  then s\<lparr> backends := wc_backends w,
                          watchCalls := (watchCalls s)[k := w\<lparr> wc_promise := Fulfilled \<rparr>] \<rparr>
                  else s)"

text \<open>
  Lines 186-207 and 231, for the roots in order: the constructor of the backend runs
  (the list says, root by root, whether it throws), then the timer is armed. A
  constructor that throws ends the \<open>map\<close>; the backends made before it stay.
\<close>

fun createWatcherBackends ::
  "nat \<Rightarrow> js_error option list \<Rightarrow> Path list \<Rightarrow> BackendSlot list \<times> js_error option" where
  "createWatcherBackends k ctor [] = ([], None)"
| "createWatcherBackends k ctor (r # rs) =
     (case (case ctor of [] \<Rightarrow> None | f # _ \<Rightarrow> f) of
        Some e \<Rightarrow> ([], Some e)
      | None \<Rightarrow>
          (let (bs, err) = createWatcherBackends k (tl ctor) rs
           in (\<lparr> bs_root = r, bs_call = k, bs_rejectTimeout = Armed MAX_WAIT_TIME,
                  bs_ready = False, bs_started = Pending \<rparr> # bs, err)))"

text \<open>Lines 166-233, up to the \<open>await\<close>.\<close>

definition watch :: "platform \<Rightarrow> js_error option list \<Rightarrow> Watcher \<Rightarrow> Watcher" where
  "watch pf ctor s =
     (let k = length (watchCalls s);
          (bs, err) = createWatcherBackends k ctor (roots (options s));
          made = [length (slots s) ..< length (slots s) + length bs];
          s1 = s\<lparr> activeWatcher := Some (watcherName pf (options s)),
                  slots := slots s @ bs \<rparr>
      in case err of
           Some e \<Rightarrow>
             s1\<lparr> watchCalls := watchCalls s @ [\<lparr> wc_backends = made, wc_promise = Rejected e \<rparr>] \<rparr>
         | None \<Rightarrow>
             settle_watch k
               (s1\<lparr> watchCalls := watchCalls s @ [\<lparr> wc_backends = made, wc_promise = Pending \<rparr>] \<rparr>))"

text \<open>Lines 203-206: the timer of backend \<open>i\<close> fires.\<close>

definition onStartTimeout :: "nat \<Rightarrow> Watcher \<Rightarrow> Watcher" where
  "onStartTimeout i s =
     (if i < length (slots s) \<and> bs_rejectTimeout (slots s ! i) \<noteq> Cleared
         \<and> bs_rejectTimeout (slots s ! i) \<noteq> Fired then
        (let b = slots s ! i
         in settle_watch (bs_call b)
              (s\<lparr> slots := (slots s)[i := b\<lparr> bs_rejectTimeout := Fired,
                     bs_started := reject (JsError ''Error'' ''Failed to start watch mode.'')
                                     (bs_started b) \<rparr>] \<rparr>))
      else s)"

text \<open>Lines 208-226: backend \<open>i\<close> emits \<open>ready\<close>; the listener was added with \<open>once\<close>.\<close>

definition onReady :: "nat \<Rightarrow> Watcher \<Rightarrow> Watcher" where
  "onReady i s =
     (if i < length (slots s) \<and> \<not> bs_ready (slots s ! i) then
        (let b = slots s ! i
         in settle_watch (bs_call b)
              (s\<lparr> slots := (slots s)[i := b\<lparr> bs_rejectTimeout := clearTimeout (bs_rejectTimeout b),
                     bs_ready := True, bs_started := resolve (bs_started b) \<rparr>] \<rparr>))
      else s)"

text \<open>Lines 210-224: the listener of \<open>all\<close> that backend \<open>i\<close> got when it was ready.\<close>

definition onAll :: "platform \<Rightarrow> nat \<Rightarrow> WatcherBackendChangeEvent \<Rightarrow> int \<Rightarrow> Watcher \<Rightarrow> Watcher" where
  "onAll pf i change now s =
     (let basename = path_basename pf (relativePath change)
      in if startsWith basename (healthCheckFilePrefix (options s)) then
           (if event change = ADD_EVENT \<or> event change = CHANGE_EVENT
            then handleHealthCheckObservation basename now s
            else s)
         else s\<lparr> forwarded := forwarded s @ [(i, change)] \<rparr>)"

subsection \<open>The event loop\<close>

text \<open>
  What can happen to a Watcher: a caller calls \<open>watch\<close> (given, root by root, whether
  the constructor of the backend throws) or \<open>checkHealth\<close> (given the timeout and the
  clock), backend \<open>i\<close> emits \<open>ready\<close> or \<open>all\<close> with a change (given the clock when
  the reaction runs), the startup timer of backend \<open>i\<close> fires, the timer of call \<open>c\<close>
  fires (given what \<open>getPauseReason()\<close> answers then), the write of the cookie of call
  \<open>c\<close> fulfils or rejects. A backend that has not fired \<open>ready\<close> has no listener of
  \<open>all\<close>; a callback for a backend or a call that does not exist, a cleared timer, or
  a promise settling twice, changes nothing.
\<close>

datatype task =
    Watch "js_error option list"
  | Ready nat
  | StartTimeout nat
  | Emit nat WatcherBackendChangeEvent int
  | CheckHealth int int
  | Timeout nat "string option"
  | WriteDone nat
  | WriteFailed nat js_error

fun step :: "platform \<Rightarrow> Watcher \<Rightarrow> task \<Rightarrow> Watcher" where
  "step pf s (Watch ctor) = watch pf ctor s"
| "step pf s (Ready i) = onReady i s"
| "step pf s (StartTimeout i) = onStartTimeout i s"
| "step pf s (Emit i change now) =
     (if i < length (slots s) \<and> bs_ready (slots s ! i) then onAll pf i change now s else s)"
| "step pf s (CheckHealth timeout now) = checkHealth pf timeout now s"
| "step pf s (Timeout c pr) = onTimeout c pr s"
| "step pf s (WriteDone c) = onWriteDone c s"
| "step pf s (WriteFailed c e) = onWriteFailed c e s"

definition run :: "platform \<Rightarrow> Watcher \<Rightarrow> task list \<Rightarrow> Watcher" where
  "run pf s ts = foldl (step pf) s ts"

subsection \<open>Invariants\<close>

text \<open>
  \<open>finish\<close> is the code after the \<open>await\<close> of \<open>checkHealth\<close>, as a function of the one
  call it changes. A call is consistent (\<open>check_ok\<close>) when it has returned exactly if its
  race is decided, a fired timer or a received observation has left a result, and what
  it returned is its result. The registry is consistent (\<open>registry_ok\<close>) when every entry
  names a call of that basename that has not returned.
\<close>

definition finish :: "HealthCheck \<Rightarrow> HealthCheck" where
  "finish h =
     (if returned h = None \<and> (timeoutDone h \<or> (creationDone h \<and> observationDone h))
      then h\<lparr> returned := Some (nullthrows (result h)) \<rparr> else h)"

definition check_ok :: "HealthCheck \<Rightarrow> bool" where
  "check_ok h =
     ((returned h = None \<longleftrightarrow> \<not> (timeoutDone h \<or> (creationDone h \<and> observationDone h)))
      \<and> (timeoutDone h \<or> observationDone h \<longrightarrow> result h \<noteq> None)
      \<and> (returned h \<noteq> None \<longrightarrow> result h \<noteq> None \<and> returned h = map_option Inr (result h)))"

definition registry_ok :: "Watcher \<Rightarrow> bool" where
  "registry_ok s =
     (\<forall>b c. pendingHealthChecks s b = Some c \<longrightarrow>
        c < length (checks s) \<and> hc_basename (checks s ! c) = b \<and> returned (checks s ! c) = None)"

definition health_ok :: "Watcher \<Rightarrow> bool" where
  "health_ok s = (registry_ok s \<and> list_all check_ok (checks s))"

text \<open>
  \<open>cookies_ok\<close>: the basename of a call is built from its id. \<open>ids_ok\<close>: ids count
  the calls modulo \<open>MAX_SAFE_INTEGER + 1\<close>. \<open>registered\<close>: the resolver stored under the
  basename of a call is the one this call stored (line 291 stores it, line 236 looks it
  up, line 306 deletes what is under the basename). \<open>unique_name\<close>: no other call has
  the basename of this one. \<open>linked_ok\<close>: a call of a basename of its own that has not
  returned is registered.
\<close>

definition cookies_ok :: "platform \<Rightarrow> Watcher \<Rightarrow> bool" where
  "cookies_ok pf s =
     (\<forall>c < length (checks s).
        hc_basename (checks s ! c) = cookie_basename pf s (hc_id (checks s ! c)))"

definition ids_ok :: "Watcher \<Rightarrow> bool" where
  "ids_ok s =
     (nextHealthCheckId s = length (checks s) mod (MAX_SAFE_INTEGER + 1)
      \<and> (\<forall>c < length (checks s). hc_id (checks s ! c) = c mod (MAX_SAFE_INTEGER + 1)))"

definition registered :: "Watcher \<Rightarrow> nat \<Rightarrow> bool" where
  "registered s c = (pendingHealthChecks s (hc_basename (checks s ! c)) = Some c)"

definition unique_name :: "Watcher \<Rightarrow> nat \<Rightarrow> bool" where
  "unique_name s c =
     (\<forall>c' < length (checks s). c' \<noteq> c \<longrightarrow>
        hc_basename (checks s ! c') \<noteq> hc_basename (checks s ! c))"

definition linked_ok :: "Watcher \<Rightarrow> bool" where
  "linked_ok s =
     (\<forall>c < length (checks s). unique_name s c \<longrightarrow> returned (checks s ! c) = None \<longrightarrow>
        registered s c)"

text \<open>
  A backend is in one of the states its two callbacks can leave it in. A call of
  \<open>watch\<close> is consistent when its backends are its own, a pending or fulfilled call has
  one backend per root, a pending call has no rejected backend and one that is not
  fulfilled, and the backends of a fulfilled call are ready.
\<close>

definition start_failed :: js_error where
  "start_failed = JsError ''Error'' ''Failed to start watch mode.''"

definition slot_ok :: "BackendSlot \<Rightarrow> bool" where
  "slot_ok b =
     (case bs_rejectTimeout b of
        Armed d \<Rightarrow> d = MAX_WAIT_TIME \<and> \<not> bs_ready b \<and> bs_started b = Pending
      | Cleared \<Rightarrow> bs_ready b \<and> bs_started b = Fulfilled
      | Fired \<Rightarrow> bs_started b = Rejected start_failed)"

definition call_ok :: "Watcher \<Rightarrow> nat \<Rightarrow> bool" where
  "call_ok s k =
     (let w = watchCalls s ! k in
      (\<forall>i \<in> set (wc_backends w). i < length (slots s) \<and> bs_call (slots s ! i) = k)
      \<and> (wc_promise w = Pending \<or> wc_promise w = Fulfilled \<longrightarrow>
           map (\<lambda>i. bs_root (slots s ! i)) (wc_backends w) = roots (options s))
      \<and> (wc_promise w = Pending \<longrightarrow>
           (\<forall>i \<in> set (wc_backends w).
              bs_started (slots s ! i) = Pending \<or> bs_started (slots s ! i) = Fulfilled)
           \<and> (\<exists>i \<in> set (wc_backends w). bs_started (slots s ! i) \<noteq> Fulfilled))
      \<and> (wc_promise w = Fulfilled \<longrightarrow>
           (\<forall>i \<in> set (wc_backends w). bs_ready (slots s ! i))))"

definition watch_ok :: "Watcher \<Rightarrow> bool" where
  "watch_ok s =
     ((\<forall>i < length (slots s).
         slot_ok (slots s ! i) \<and> bs_call (slots s ! i) < length (watchCalls s)
         \<and> i \<in> set (wc_backends (watchCalls s ! bs_call (slots s ! i))))
      \<and> (\<forall>k < length (watchCalls s). call_ok s k)
      \<and> (\<forall>x \<in> set (forwarded s). fst x < length (slots s) \<and> bs_ready (slots s ! fst x)))"

subsection \<open>The words of claims C1 and C6\<close>

text \<open>
  \<open>task_of\<close>: the events that belong to a call (its timer, the settling of its write, a
  change whose basename is its own). \<open>decides\<close> follows the words of claim C1: what an
  event decides for a call: its timer firing decides \<open>timeout\<close>, its write failing decides
  \<open>error\<close>, an add or change event with its basename, delivered by a ready backend,
  decides \<open>success\<close>. \<open>first_decision\<close> is the decision of the first event in a list
  that decides. \<open>decides_registered\<close> and \<open>first_registered_decision\<close> are the same, but
  for this: a change is observed by the call that is registered under the basename of
  the change, and decides nothing for any other call.
\<close>

fun task_of :: "platform \<Rightarrow> Watcher \<Rightarrow> nat \<Rightarrow> task \<Rightarrow> bool" where
  "task_of pf s c (Timeout c' pr) = (c' = c)"
| "task_of pf s c (WriteDone c') = (c' = c)"
| "task_of pf s c (WriteFailed c' e) = (c' = c)"
| "task_of pf s c (Emit i change now) =
     (path_basename pf (relativePath change) = hc_basename (checks s ! c))"
| "task_of pf s c t = False"

definition decides :: "platform \<Rightarrow> Watcher \<Rightarrow> nat \<Rightarrow> task \<Rightarrow> HealthCheckResult option" where
  "decides pf s c t =
     (let h = checks s ! c
      in case t of
           Timeout c' pr \<Rightarrow>
             if c' = c \<and> \<not> timeoutDone h
             then Some (HC_timeout (hc_timeout h) (hc_watcher h)
                          (if backends s = [] then None else pr))
             else None
         | WriteFailed c' e \<Rightarrow>
             if c' = c \<and> \<not> creationDone h
             then Some (HC_error (hc_timeout h) e (hc_watcher h))
             else None
         | Emit i change now \<Rightarrow>
             if i < length (slots s) \<and> bs_ready (slots s ! i)
                \<and> (event change = ADD_EVENT \<or> event change = CHANGE_EVENT)
                \<and> path_basename pf (relativePath change) = hc_basename h
             then Some (HC_success (hc_timeout h) (now - hc_startTime h) (hc_watcher h))
             else None
         | _ \<Rightarrow> None)"

fun first_decision :: "platform \<Rightarrow> Watcher \<Rightarrow> nat \<Rightarrow> task list \<Rightarrow> HealthCheckResult option" where
  "first_decision pf s c [] = None"
| "first_decision pf s c (t # ts) =
     (case decides pf s c t of
        Some r \<Rightarrow> Some r
      | None \<Rightarrow> first_decision pf (step pf s t) c ts)"

definition decides_registered ::
  "platform \<Rightarrow> Watcher \<Rightarrow> nat \<Rightarrow> task \<Rightarrow> HealthCheckResult option"
where
  "decides_registered pf s c t =
     (case t of
        Emit i change now \<Rightarrow> if registered s c then decides pf s c t else None
      | _ \<Rightarrow> decides pf s c t)"

fun first_registered_decision ::
  "platform \<Rightarrow> Watcher \<Rightarrow> nat \<Rightarrow> task list \<Rightarrow> HealthCheckResult option"
where
  "first_registered_decision pf s c [] = None"
| "first_registered_decision pf s c (t # ts) =
     (case decides_registered pf s c t of
        Some r \<Rightarrow> Some r
      | None \<Rightarrow> first_registered_decision pf (step pf s t) c ts)"

subsection \<open>Inputs used to run the definitions\<close>

definition posix :: platform where
  "posix = \<lparr> path_basename = posix_basename, process_pid = 4242, fsEventsSupported = False \<rparr>"

definition demo_options :: WatcherOptions where
  "demo_options =
     \<lparr> abortSignal = None, computeSha1 = False, enableSymlinks = False,
       extensions = [''js''], forceNodeFilesystemAPI = False,
       healthCheckFilePrefix = ''.metro-health-check'',
       ignore = (\<lambda>p. False), perfLogger = False, previousState = 0,
       roots = [''/proj''], rootDir = ''/proj'', useWatchman = True,
       watchmanDeferStates = [] \<rparr>"

definition two_roots :: WatcherOptions where
  "two_roots = demo_options\<lparr> roots := [''/a'', ''/b''] \<rparr>"

definition unavailable :: js_error where
  "unavailable = JsError ''Error'' ''service unavailable''"

definition walk_failed :: js_error where
  "walk_failed = JsError ''Error'' ''EACCES''"

definition delta_a :: CrawlResult where
  "delta_a = \<lparr> changedFiles = [''/proj/a.js'' \<mapsto> 7], clocks = None, removedFiles = {} \<rparr>"

text \<open>A directory walk over two candidate files that skips what the predicate ignores.\<close>

definition walk_two :: "CrawlerOptions \<Rightarrow> CrawlResult attempt" where
  "walk_two co =
     Fulfils \<lparr> changedFiles =
                 (\<lambda>p. if p \<in> {''/proj/a.js'', ''/proj/.metro-health-check-4242-0-0''} \<and> \<not> co_ignore co p
                      then Some 7 else None),
               clocks = None, removedFiles = {} \<rparr>"

definition both_fail :: crawlers where
  "both_fail = \<lparr> watchmanCrawl = (\<lambda>co. Rejects unavailable), nodeCrawl = (\<lambda>co. Rejects walk_failed) \<rparr>"

definition fallback_ok :: crawlers where
  "fallback_ok = \<lparr> watchmanCrawl = (\<lambda>co. Rejects unavailable), nodeCrawl = (\<lambda>co. Fulfils delta_a) \<rparr>"

definition retry_throws :: crawlers where
  "retry_throws = \<lparr> watchmanCrawl = (\<lambda>co. Rejects unavailable), nodeCrawl = (\<lambda>co. Throws walk_failed) \<rparr>"

definition walkers :: crawlers where
  "walkers = \<lparr> watchmanCrawl = (\<lambda>co. Rejects unavailable), nodeCrawl = walk_two \<rparr>"

definition cookie_added :: WatcherBackendChangeEvent where
  "cookie_added = \<lparr> event = ADD_EVENT, relativePath = ''.metro-health-check-4242-0-0'' \<rparr>"

definition second_cookie_added :: WatcherBackendChangeEvent where
  "second_cookie_added = \<lparr> event = ADD_EVENT, relativePath = ''.metro-health-check-4242-0-1'' \<rparr>"

definition cookie_deleted :: WatcherBackendChangeEvent where
  "cookie_deleted = \<lparr> event = DELETE_EVENT, relativePath = ''.metro-health-check-4242-0-0'' \<rparr>"

definition stray_cookie :: WatcherBackendChangeEvent where
  "stray_cookie = \<lparr> event = ADD_EVENT, relativePath = ''sub/.metro-health-check-977-3-12'' \<rparr>"

definition source_changed :: WatcherBackendChangeEvent where
  "source_changed = \<lparr> event = CHANGE_EVENT, relativePath = ''src/a.js'' \<rparr>"

definition source_deleted :: WatcherBackendChangeEvent where
  "source_deleted = \<lparr> event = DELETE_EVENT, relativePath = ''src/a.js'' \<rparr>"

text \<open>
  States: a new Watcher; one root, watching; two roots, the first ready; the same after
  the timer of the second root and a change under the first; a check whose write has
  failed, and one whose write is done; one and two pending checks; the counter at its
  last value.
\<close>

definition fresh :: Watcher where
  "fresh = Watcher_new demo_options 0"

definition ready_watcher :: Watcher where
  "ready_watcher = run posix fresh [Watch [], Ready 0]"

definition half_ready :: Watcher where
  "half_ready = run posix (Watcher_new two_roots 0) [Watch [], Ready 0]"

definition still_delivering :: Watcher where
  "still_delivering = run posix half_ready [StartTimeout 1, Emit 0 source_changed 5]"

definition failed_write :: Watcher where
  "failed_write = run posix ready_watcher [CheckHealth 1000 10, WriteFailed 0 walk_failed]"

definition cookie_written :: Watcher where
  "cookie_written = run posix ready_watcher [CheckHealth 1000 10, WriteDone 0]"

definition one_check :: Watcher where
  "one_check = step posix ready_watcher (CheckHealth 1000 10)"

definition two_checks :: Watcher where
  "two_checks = run posix ready_watcher [CheckHealth 1000 10, CheckHealth 1000 11]"

definition about_to_wrap :: Watcher where
  "about_to_wrap = fresh\<lparr> nextHealthCheckId := MAX_SAFE_INTEGER \<rparr>"

section \<open>Properties of crawl\<close>

lemma sublist_likely_cause: "sublist likely_cause (retry_warning e)"
  unfolding retry_warning_def by (rule sublist_appendI)

lemma sublist_original_message: "sublist (message e1) (retry_failed_message e1 e2)"
  unfolding retry_failed_message_def by (rule sublist_appendI)

lemma sublist_retry_message: "sublist (message e2) (retry_failed_message e1 e2)"
proof -
  have "retry_failed_message e1 e2 =
      ((''Crawler retry failed:'' @ [CHR 0x0A] @ ''  Original error: '') @ message e1 @
       ([CHR 0x0A] @ ''  Retry error: '')) @ message e2 @ [CHR 0x0A]"
    by (simp add: retry_failed_message_def)
  then show ?thesis
    by (metis sublist_appendI)
qed

lemma failure_SomeE:
  assumes "failure a = Some e"
  obtains "a = Rejects e" | "a = Throws e"
  using assms by (cases a) auto

lemma crawl_primary_fulfils:
  assumes "abortSignal opts = None"
    and "crawler cr (if useWatchman opts then watchman else node) (crawlerOptions pf opts) = Fulfils d"
  shows "crawl pf cr opts =
    (perfPoint opts ''crawl_start'' @
       [Invoke (if useWatchman opts then watchman else node) (crawlerOptions pf opts)] @
       perfPoint opts ''crawl_end'', Inr d)"
  using assms by (simp add: crawl_def logEnd_def Let_def)

lemma crawl_watchman_fails:
  assumes "abortSignal opts = None" and "useWatchman opts"
    and "failure (watchmanCrawl cr (crawlerOptions pf opts)) = Some e1"
  shows "crawl pf cr opts =
    (perfPoint opts ''crawl_start'' @
       [Invoke watchman (crawlerOptions pf opts), ConsoleWarn (retry_warning e1),
        Invoke node (crawlerOptions pf opts)] @
       (case nodeCrawl cr (crawlerOptions pf opts) of
          Fulfils d \<Rightarrow> perfPoint opts ''crawl_end'' | Rejects e \<Rightarrow> [] | Throws e \<Rightarrow> []),
     case nodeCrawl cr (crawlerOptions pf opts) of
       Fulfils d \<Rightarrow> Inr d
     | Rejects e2 \<Rightarrow> Inl (JsError ''Error'' (retry_failed_message e1 e2))
     | Throws e2 \<Rightarrow> Inl e2)"
  using assms(3)
proof (cases rule: failure_SomeE)
  case 1
  with assms(1,2) show ?thesis
    by (cases "nodeCrawl cr (crawlerOptions pf opts)")
       (simp_all add: crawl_def retry_def logEnd_def Let_def)
next
  case 2
  with assms(1,2) show ?thesis
    by (cases "nodeCrawl cr (crawlerOptions pf opts)")
       (simp_all add: crawl_def retry_def logEnd_def Let_def)
qed

lemma crawl_node_fails:
  assumes "abortSignal opts = None" and "\<not> useWatchman opts"
    and "failure (nodeCrawl cr (crawlerOptions pf opts)) = Some e"
  shows "crawl pf cr opts =
    (perfPoint opts ''crawl_start'' @ [Invoke node (crawlerOptions pf opts)], Inl e)"
  using assms(3)
proof (cases rule: failure_SomeE)
  case 1
  with assms(1,2) show ?thesis by (simp add: crawl_def retry_def Let_def)
next
  case 2
  with assms(1,2) show ?thesis by (simp add: crawl_def retry_def Let_def)
qed

lemma crawl_invokes:
  assumes "Invoke n co \<in> set (fst (crawl pf cr opts))"
  shows "co = crawlerOptions pf opts"
proof (cases "abortSignal opts")
  case (Some reason)
  with assms show ?thesis by (simp add: crawl_def perfPoint_def split: if_splits)
next
  case None
  show ?thesis
  proof (cases "crawler cr (if useWatchman opts then watchman else node) (crawlerOptions pf opts)")
    case (Fulfils d)
    from assms show ?thesis
      unfolding crawl_primary_fulfils [OF None Fulfils]
      by (auto simp: perfPoint_def split: if_splits)
  next
    case (Rejects e)
    show ?thesis
    proof (cases "useWatchman opts")
      case True
      with Rejects have fl: "failure (watchmanCrawl cr (crawlerOptions pf opts)) = Some e" by simp
      from assms show ?thesis
        unfolding crawl_watchman_fails [OF None True fl]
        by (auto simp: perfPoint_def split: if_splits attempt.splits)
    next
      case False
      with Rejects have fl: "failure (nodeCrawl cr (crawlerOptions pf opts)) = Some e" by simp
      from assms show ?thesis
        unfolding crawl_node_fails [OF None False fl]
        by (auto simp: perfPoint_def split: if_splits)
    qed
  next
    case (Throws e)
    show ?thesis
    proof (cases "useWatchman opts")
      case True
      with Throws have fl: "failure (watchmanCrawl cr (crawlerOptions pf opts)) = Some e" by simp
      from assms show ?thesis
        unfolding crawl_watchman_fails [OF None True fl]
        by (auto simp: perfPoint_def split: if_splits attempt.splits)
    next
      case False
      with Throws have fl: "failure (nodeCrawl cr (crawlerOptions pf opts)) = Some e" by simp
      from assms show ?thesis
        unfolding crawl_node_fails [OF None False fl]
        by (auto simp: perfPoint_def split: if_splits)
    qed
  qed
qed

lemma crawl_result_from_strategy:
  assumes "snd (crawl pf cr opts) = Inr d"
  shows "watchmanCrawl cr (crawlerOptions pf opts) = Fulfils d
       \<or> nodeCrawl cr (crawlerOptions pf opts) = Fulfils d"
proof (cases "abortSignal opts")
  case (Some reason)
  with assms show ?thesis by (simp add: crawl_def)
next
  case None
  show ?thesis
  proof (cases "crawler cr (if useWatchman opts then watchman else node) (crawlerOptions pf opts)")
    case (Fulfils d')
    from assms have "d' = d"
      unfolding crawl_primary_fulfils [OF None Fulfils] by simp
    with Fulfils show ?thesis by (simp split: if_splits)
  next
    case (Rejects e)
    show ?thesis
    proof (cases "useWatchman opts")
      case True
      with Rejects have fl: "failure (watchmanCrawl cr (crawlerOptions pf opts)) = Some e" by simp
      from assms show ?thesis
        unfolding crawl_watchman_fails [OF None True fl]
        by (simp split: attempt.splits)
    next
      case False
      with Rejects have fl: "failure (nodeCrawl cr (crawlerOptions pf opts)) = Some e" by simp
      from assms show ?thesis
        unfolding crawl_node_fails [OF None False fl] by simp
    qed
  next
    case (Throws e)
    show ?thesis
    proof (cases "useWatchman opts")
      case True
      with Throws have fl: "failure (watchmanCrawl cr (crawlerOptions pf opts)) = Some e" by simp
      from assms show ?thesis
        unfolding crawl_watchman_fails [OF None True fl]
        by (simp split: attempt.splits)
    next
      case False
      with Throws have fl: "failure (nodeCrawl cr (crawlerOptions pf opts)) = Some e" by simp
      from assms show ?thesis
        unfolding crawl_node_fails [OF None False fl] by simp
    qed
  qed
qed

lemma demo_not_aborted: "abortSignal demo_options = None"
  by (simp add: demo_options_def)

lemma demo_useWatchman: "useWatchman demo_options"
  by (simp add: demo_options_def)

lemma demo_no_perfLogger: "perfPoint demo_options name = []"
  by (simp add: demo_options_def perfPoint_def)

subsection \<open>C3: one fallback, never a second\<close>

text \<open>
  What holds of the fallback. When the call is not aborted and the watchman strategy is
  selected and fails with \<open>e1\<close> (it rejects, or throws), \<open>crawl\<close> does exactly this, in
  order: it invokes the watchman strategy, warns once with a text that names the likely
  cause, and invokes the node strategy once with the same crawler options; nothing follows
  but the final \<open>crawl_end\<close> point when the retry fulfils. When the retry rejects with
  \<open>e2\<close>, \<open>crawl\<close> rejects with an error whose message contains the messages of \<open>e1\<close> and
  of \<open>e2\<close>; when the retry throws \<open>e2\<close>, \<open>crawl\<close> rejects with \<open>e2\<close> itself. When the
  node strategy is selected and fails, \<open>crawl\<close> rejects with that very error after the
  one invocation.
\<close>

lemma crawl_retries_once:
  assumes "abortSignal opts = None" and "co = crawlerOptions pf opts"
  shows "(useWatchman opts \<longrightarrow> failure (watchmanCrawl cr co) = Some e1 \<longrightarrow>
            fst (crawl pf cr opts) =
              perfPoint opts ''crawl_start'' @
              [Invoke watchman co, ConsoleWarn (retry_warning e1), Invoke node co] @
              (case nodeCrawl cr co of
                 Fulfils d \<Rightarrow> perfPoint opts ''crawl_end'' | Rejects e \<Rightarrow> [] | Throws e \<Rightarrow> [])
            \<and> sublist likely_cause (retry_warning e1)
            \<and> (nodeCrawl cr co = Rejects e2 \<longrightarrow>
                 snd (crawl pf cr opts) = Inl (JsError ''Error'' (retry_failed_message e1 e2))
                 \<and> sublist (message e1) (retry_failed_message e1 e2)
                 \<and> sublist (message e2) (retry_failed_message e1 e2))
            \<and> (nodeCrawl cr co = Throws e2 \<longrightarrow> snd (crawl pf cr opts) = Inl e2))
       \<and> (\<not> useWatchman opts \<longrightarrow> failure (nodeCrawl cr co) = Some e \<longrightarrow>
            crawl pf cr opts = (perfPoint opts ''crawl_start'' @ [Invoke node co], Inl e))"
proof (intro conjI impI)
  assume w: "useWatchman opts" and f: "failure (watchmanCrawl cr co) = Some e1"
  from f have f': "failure (watchmanCrawl cr (crawlerOptions pf opts)) = Some e1"
    by (simp add: assms(2))
  show "fst (crawl pf cr opts) =
      perfPoint opts ''crawl_start'' @
      [Invoke watchman co, ConsoleWarn (retry_warning e1), Invoke node co] @
      (case nodeCrawl cr co of
         Fulfils d \<Rightarrow> perfPoint opts ''crawl_end'' | Rejects e \<Rightarrow> [] | Throws e \<Rightarrow> [])"
    by (simp add: crawl_watchman_fails [OF assms(1) w f'] assms(2))
  show "sublist likely_cause (retry_warning e1)"
    by (rule sublist_likely_cause)
  assume r: "nodeCrawl cr co = Rejects e2"
  then have r': "nodeCrawl cr (crawlerOptions pf opts) = Rejects e2"
    by (simp add: assms(2))
  show "snd (crawl pf cr opts) = Inl (JsError ''Error'' (retry_failed_message e1 e2))"
    by (simp add: crawl_watchman_fails [OF assms(1) w f'] r')
  show "sublist (message e1) (retry_failed_message e1 e2)"
    by (rule sublist_original_message)
  show "sublist (message e2) (retry_failed_message e1 e2)"
    by (rule sublist_retry_message)
next
  assume w: "useWatchman opts" and f: "failure (watchmanCrawl cr co) = Some e1"
  from f have f': "failure (watchmanCrawl cr (crawlerOptions pf opts)) = Some e1"
    by (simp add: assms(2))
  assume "nodeCrawl cr co = Throws e2"
  then have "nodeCrawl cr (crawlerOptions pf opts) = Throws e2"
    by (simp add: assms(2))
  then show "snd (crawl pf cr opts) = Inl e2"
    by (simp add: crawl_watchman_fails [OF assms(1) w f'])
next
  assume n: "\<not> useWatchman opts" and f: "failure (nodeCrawl cr co) = Some e"
  from f have "failure (nodeCrawl cr (crawlerOptions pf opts)) = Some e"
    by (simp add: assms(2))
  from crawl_node_fails [OF assms(1) n this]
  show "crawl pf cr opts = (perfPoint opts ''crawl_start'' @ [Invoke node co], Inl e)"
    by (simp add: assms(2))
qed

lemma crawl_retries_once_demo:
  "crawl posix both_fail demo_options =
     ([Invoke watchman (crawlerOptions posix demo_options),
       ConsoleWarn (retry_warning unavailable),
       Invoke node (crawlerOptions posix demo_options)],
      Inl (JsError ''Error'' (retry_failed_message unavailable walk_failed)))
   \<and> sublist ''service unavailable'' (retry_failed_message unavailable walk_failed)
   \<and> sublist ''EACCES'' (retry_failed_message unavailable walk_failed)
   \<and> crawl posix both_fail (demo_options\<lparr>useWatchman := False\<rparr>) =
       ([Invoke node (crawlerOptions posix demo_options)], Inl walk_failed)"
proof -
  have co: "crawlerOptions posix (demo_options\<lparr>useWatchman := False\<rparr>) =
      crawlerOptions posix demo_options"
    by (simp add: crawlerOptions_def crawl_ignore_def fun_eq_iff)
  have a: "abortSignal (demo_options\<lparr>useWatchman := False\<rparr>) = None"
    by (simp add: demo_options_def)
  have p: "perfPoint (demo_options\<lparr>useWatchman := False\<rparr>) name = []" for name
    by (simp add: demo_options_def perfPoint_def)
  have 1: "prod.swap (prod.swap (crawl posix both_fail demo_options)) =
      ([Invoke watchman (crawlerOptions posix demo_options),
        ConsoleWarn (retry_warning unavailable),
        Invoke node (crawlerOptions posix demo_options)],
       Inl (JsError ''Error'' (retry_failed_message unavailable walk_failed)))
     \<and> sublist (message unavailable) (retry_failed_message unavailable walk_failed)
     \<and> sublist (message walk_failed) (retry_failed_message unavailable walk_failed)"
    using crawl_retries_once
      [where opts = demo_options and pf = posix and cr = both_fail and ?e1.0 = unavailable
         and ?e2.0 = walk_failed, OF demo_not_aborted refl]
    by (simp add: demo_useWatchman demo_no_perfLogger both_fail_def prod_eq_iff)
  have 2: "crawl posix both_fail (demo_options\<lparr>useWatchman := False\<rparr>) =
      ([Invoke node (crawlerOptions posix demo_options)], Inl walk_failed)"
    using crawl_retries_once
      [where opts = "demo_options\<lparr>useWatchman := False\<rparr>" and pf = posix
         and cr = both_fail and e = walk_failed, OF a refl]
    by (simp add: co p both_fail_def)
  from 1 2 show ?thesis
    by (simp add: unavailable_def walk_failed_def)
qed

text \<open>
  Claim C3 says that \<open>crawl\<close> fails with an error holding both messages whenever the
  retry fails too. It does when the promise of the retry rejects. It does not when the
  node strategy throws before it returns a promise: the handler of lines 133-139 is
  attached to the promise that \<open>nodeCrawl\<close> returns, so what \<open>nodeCrawl\<close> throws leaves
  \<open>retry\<close> as it is and becomes the rejection of \<open>crawl\<close>, and the message of the original
  error is lost; lines 158-163 do catch a first attempt that throws. Here the watchman
  strategy rejects with \<open>service unavailable\<close> and the node strategy throws \<open>EACCES\<close>:
  one warning, one retry, and \<open>crawl\<close> rejects with \<open>EACCES\<close> alone.
\<close>

theorem crawl_drops_original_error:
  "crawl posix retry_throws demo_options =
     ([Invoke watchman (crawlerOptions posix demo_options),
       ConsoleWarn (retry_warning unavailable),
       Invoke node (crawlerOptions posix demo_options)],
      Inl walk_failed)
   \<and> failure (watchmanCrawl retry_throws (crawlerOptions posix demo_options)) = Some unavailable
   \<and> failure (nodeCrawl retry_throws (crawlerOptions posix demo_options)) = Some walk_failed
   \<and> message unavailable = ''service unavailable''
   \<and> message walk_failed = ''EACCES''
   \<and> \<not> sublist (message unavailable) (message walk_failed)"
proof -
  have f: "failure (watchmanCrawl retry_throws (crawlerOptions posix demo_options)) = Some unavailable"
    and g: "failure (nodeCrawl retry_throws (crawlerOptions posix demo_options)) = Some walk_failed"
    by (simp_all add: retry_throws_def)
  have 1: "crawl posix retry_throws demo_options =
     ([Invoke watchman (crawlerOptions posix demo_options),
       ConsoleWarn (retry_warning unavailable),
       Invoke node (crawlerOptions posix demo_options)],
      Inl walk_failed)"
    unfolding crawl_watchman_fails [OF demo_not_aborted demo_useWatchman f]
    by (simp add: demo_no_perfLogger retry_throws_def)
  have "\<not> length (message unavailable) \<le> length (message walk_failed)"
    by (simp add: unavailable_def walk_failed_def)
  then have 2: "\<not> sublist (message unavailable) (message walk_failed)"
    using sublist_length_le by blast
  from 1 2 f g show ?thesis
    by (simp add: unavailable_def walk_failed_def)
qed

subsection \<open>C7: the fallback's result is the result\<close>

text \<open>
  Claim C7. When the call is not aborted, the watchman strategy is selected and fails, and
  the node strategy fulfils with \<open>d\<close> on the same crawler options, \<open>crawl\<close> fulfils with
  \<open>d\<close> itself: the same record that a Watcher configured without watchman, whose crawler
  options are the same, returns. \<open>logEnd\<close> returns its argument.
\<close>

theorem crawl_fallback_result_unchanged:
  assumes "abortSignal opts = None" and "useWatchman opts"
    and "failure (watchmanCrawl cr (crawlerOptions pf opts)) = Some e1"
    and "nodeCrawl cr (crawlerOptions pf opts) = Fulfils d"
  shows "snd (crawl pf cr opts) = Inr d
       \<and> crawlerOptions pf (opts\<lparr>useWatchman := False\<rparr>) = crawlerOptions pf opts
       \<and> snd (crawl pf cr (opts\<lparr>useWatchman := False\<rparr>)) = Inr d
       \<and> snd (logEnd opts d) = d"
proof -
  have co: "crawlerOptions pf (opts\<lparr>useWatchman := False\<rparr>) = crawlerOptions pf opts"
    by (simp add: crawlerOptions_def crawl_ignore_def fun_eq_iff)
  have "snd (crawl pf cr opts) = Inr d"
    by (simp add: crawl_watchman_fails [OF assms(1-3)] assms(4))
  moreover have "snd (crawl pf cr (opts\<lparr>useWatchman := False\<rparr>)) = Inr d"
    using assms(1,4) by (simp add: crawl_def co logEnd_def Let_def)
  ultimately show ?thesis
    by (simp add: co logEnd_def)
qed

theorem crawl_fallback_result_unchanged_witness:
  "snd (crawl posix fallback_ok demo_options) = Inr delta_a
   \<and> snd (crawl posix fallback_ok (demo_options\<lparr>useWatchman := False\<rparr>)) = Inr delta_a
   \<and> changedFiles delta_a ''/proj/a.js'' = Some 7"
proof -
  have "failure (watchmanCrawl fallback_ok (crawlerOptions posix demo_options)) = Some unavailable"
    by (simp add: fallback_ok_def)
  moreover have "nodeCrawl fallback_ok (crawlerOptions posix demo_options) = Fulfils delta_a"
    by (simp add: fallback_ok_def)
  ultimately show ?thesis
    using crawl_fallback_result_unchanged [OF demo_not_aborted demo_useWatchman]
    by (simp add: delta_a_def)
qed

subsection \<open>C9: cookies are ignored by the crawl\<close>

text \<open>
  Claim C9. Every invocation of a strategy by \<open>crawl\<close> gets crawler options whose
  ignore predicate holds of a path exactly when the configured predicate holds of it or
  its basename starts with the health-check prefix. Hence, when both strategies honour
  the ignore predicate they are given, a result of \<open>crawl\<close> reports no path whose basename
  starts with the prefix as changed.
\<close>

theorem crawl_ignores_health_check_files:
  "(Invoke n co \<in> set (fst (crawl pf cr opts)) \<longrightarrow>
      co_ignore co p =
        (ignore opts p \<or> startsWith (path_basename pf p) (healthCheckFilePrefix opts)))
   \<and> (honours_ignore (watchmanCrawl cr) \<longrightarrow> honours_ignore (nodeCrawl cr) \<longrightarrow>
        snd (crawl pf cr opts) = Inr d \<longrightarrow>
        startsWith (path_basename pf p) (healthCheckFilePrefix opts) \<longrightarrow>
        changedFiles d p = None)"
proof (intro conjI impI)
  assume "Invoke n co \<in> set (fst (crawl pf cr opts))"
  then have "co = crawlerOptions pf opts" by (rule crawl_invokes)
  then show "co_ignore co p =
      (ignore opts p \<or> startsWith (path_basename pf p) (healthCheckFilePrefix opts))"
    by (simp add: crawlerOptions_def crawl_ignore_def)
next
  assume hw: "honours_ignore (watchmanCrawl cr)" and hn: "honours_ignore (nodeCrawl cr)"
    and d: "snd (crawl pf cr opts) = Inr d"
    and p: "startsWith (path_basename pf p) (healthCheckFilePrefix opts)"
  from p have ig: "co_ignore (crawlerOptions pf opts) p"
    by (simp add: crawlerOptions_def crawl_ignore_def)
  from crawl_result_from_strategy [OF d] show "changedFiles d p = None"
  proof
    assume "watchmanCrawl cr (crawlerOptions pf opts) = Fulfils d"
    with hw ig show ?thesis unfolding honours_ignore_def by blast
  next
    assume "nodeCrawl cr (crawlerOptions pf opts) = Fulfils d"
    with hn ig show ?thesis unfolding honours_ignore_def by blast
  qed
qed

lemma walk_two_honours_ignore: "honours_ignore walk_two"
  by (auto simp: honours_ignore_def walk_two_def)

lemma rejecting_honours_ignore: "honours_ignore (\<lambda>co. Rejects e)"
  by (simp add: honours_ignore_def)

lemma posix_basename_cookie:
  "posix_basename ''/proj/.metro-health-check-4242-0-0'' = ''.metro-health-check-4242-0-0''"
  by (simp add: posix_basename_def)

lemma posix_basename_a: "posix_basename ''/proj/a.js'' = ''a.js''"
  by (simp add: posix_basename_def)

theorem crawl_ignores_health_check_files_witness:
  "Invoke node (crawlerOptions posix demo_options) \<in> set (fst (crawl posix walkers demo_options))
   \<and> co_ignore (crawlerOptions posix demo_options) ''/proj/.metro-health-check-4242-0-0''
   \<and> \<not> co_ignore (crawlerOptions posix demo_options) ''/proj/a.js''
   \<and> (\<exists>d. snd (crawl posix walkers demo_options) = Inr d
          \<and> changedFiles d ''/proj/.metro-health-check-4242-0-0'' = None
          \<and> changedFiles d ''/proj/a.js'' = Some 7)"
proof -
  have f: "failure (watchmanCrawl walkers (crawlerOptions posix demo_options)) = Some unavailable"
    by (simp add: walkers_def)
  have c: "crawl posix walkers demo_options =
      ([Invoke watchman (crawlerOptions posix demo_options),
        ConsoleWarn (retry_warning unavailable),
        Invoke node (crawlerOptions posix demo_options)],
       case walk_two (crawlerOptions posix demo_options) of
         Fulfils d \<Rightarrow> Inr d
       | Rejects e2 \<Rightarrow> Inl (JsError ''Error'' (retry_failed_message unavailable e2))
       | Throws e2 \<Rightarrow> Inl e2)"
    unfolding crawl_watchman_fails [OF demo_not_aborted demo_useWatchman f]
    by (simp add: demo_no_perfLogger walkers_def walk_two_def)
  have pre: "startsWith (path_basename posix ''/proj/.metro-health-check-4242-0-0'')
      (healthCheckFilePrefix demo_options)"
    by (simp add: posix_def posix_basename_cookie startsWith_def demo_options_def)
  have npre: "\<not> startsWith (path_basename posix ''/proj/a.js'')
      (healthCheckFilePrefix demo_options)"
    by (simp add: posix_def posix_basename_a startsWith_def demo_options_def)
  have inv: "Invoke node (crawlerOptions posix demo_options)
      \<in> set (fst (crawl posix walkers demo_options))"
    by (simp add: c)
  define d where "d = \<lparr> changedFiles =
      (\<lambda>p. if p \<in> {''/proj/a.js'', ''/proj/.metro-health-check-4242-0-0''}
                \<and> \<not> co_ignore (crawlerOptions posix demo_options) p
           then Some (7::nat) else None),
      clocks = None, removedFiles = {} \<rparr>"
  have d: "snd (crawl posix walkers demo_options) = Inr d"
    by (simp add: c walk_two_def d_def)
  have "\<not> co_ignore (crawlerOptions posix demo_options) ''/proj/a.js''"
    using npre by (simp add: crawlerOptions_def crawl_ignore_def demo_options_def)
  then have a: "changedFiles d ''/proj/a.js'' = Some 7"
    by (simp add: d_def)
  have hw: "honours_ignore (watchmanCrawl walkers)"
    by (simp add: walkers_def rejecting_honours_ignore)
  have hn: "honours_ignore (nodeCrawl walkers)"
    by (simp add: walkers_def walk_two_honours_ignore)
  note inst = crawl_ignores_health_check_files [where n = node
      and co = "crawlerOptions posix demo_options" and pf = posix and cr = walkers
      and opts = demo_options and d = d]
  from inst [where p = "''/proj/.metro-health-check-4242-0-0''"] inv pre hw hn d
  have 1: "co_ignore (crawlerOptions posix demo_options) ''/proj/.metro-health-check-4242-0-0''"
    and 2: "changedFiles d ''/proj/.metro-health-check-4242-0-0'' = None"
    by simp_all
  from inst [where p = "''/proj/a.js''"] inv npre
  have 3: "\<not> co_ignore (crawlerOptions posix demo_options) ''/proj/a.js''"
    by (simp add: demo_options_def)
  from inv 1 2 3 d a show ?thesis by blast
qed

section \<open>Properties of checkHealth and watch\<close>

lemma checks_afterRace:
  "c < length (checks s) \<Longrightarrow> checks (afterRace c s) = (checks s)[c := finish (checks s ! c)]"
  by (simp add: afterRace_def finish_def Let_def)

lemma pending_afterRace:
  "pendingHealthChecks (afterRace c s) =
     (if returned (checks s ! c) = None
         \<and> (timeoutDone (checks s ! c) \<or> (creationDone (checks s ! c) \<and> observationDone (checks s ! c)))
      then (pendingHealthChecks s)(hc_basename (checks s ! c) := None)
      else pendingHealthChecks s)"
  by (simp add: afterRace_def Let_def)

lemma frame_afterRace [simp]:
  "options (afterRace c s) = options s"
  "backends (afterRace c s) = backends s"
  "instanceId (afterRace c s) = instanceId s"
  "nextHealthCheckId (afterRace c s) = nextHealthCheckId s"
  "activeWatcher (afterRace c s) = activeWatcher s"
  "slots (afterRace c s) = slots s"
  "watchCalls (afterRace c s) = watchCalls s"
  "forwarded (afterRace c s) = forwarded s"
  "length (checks (afterRace c s)) = length (checks s)"
  by (simp_all add: afterRace_def Let_def)

lemma checks_react:
  "c < length (checks s) \<Longrightarrow> checks (react c f s) = (checks s)[c := finish (f (checks s ! c))]"
  by (simp add: react_def checks_afterRace)

lemma pending_react:
  "c < length (checks s) \<Longrightarrow> pendingHealthChecks (react c f s) =
     (if returned (f (checks s ! c)) = None
         \<and> (timeoutDone (f (checks s ! c))
             \<or> (creationDone (f (checks s ! c)) \<and> observationDone (f (checks s ! c))))
      then (pendingHealthChecks s)(hc_basename (f (checks s ! c)) := None)
      else pendingHealthChecks s)"
  by (simp add: react_def pending_afterRace)

lemma frame_react [simp]:
  "options (react c f s) = options s"
  "backends (react c f s) = backends s"
  "instanceId (react c f s) = instanceId s"
  "nextHealthCheckId (react c f s) = nextHealthCheckId s"
  "activeWatcher (react c f s) = activeWatcher s"
  "slots (react c f s) = slots s"
  "watchCalls (react c f s) = watchCalls s"
  "forwarded (react c f s) = forwarded s"
  "length (checks (react c f s)) = length (checks s)"
  by (simp_all add: react_def)

lemma finish_fields [simp]:
  "hc_id (finish h) = hc_id h"
  "hc_basename (finish h) = hc_basename h"
  "hc_timeout (finish h) = hc_timeout h"
  "hc_watcher (finish h) = hc_watcher h"
  "hc_startTime (finish h) = hc_startTime h"
  "result (finish h) = result h"
  "timeoutDone (finish h) = timeoutDone h"
  "creationDone (finish h) = creationDone h"
  "observationDone (finish h) = observationDone h"
  by (simp_all add: finish_def)

lemmas health_defs = onTimeout_def onWriteDone_def onWriteFailed_def resolveHealthCheck_def
  handleHealthCheckObservation_def

lemma frame_health [simp]:
  "options (onTimeout c pr s) = options s"
  "options (onWriteDone c s) = options s"
  "options (onWriteFailed c e s) = options s"
  "options (resolveHealthCheck c now s) = options s"
  "options (handleHealthCheckObservation b now s) = options s"
  "backends (onTimeout c pr s) = backends s"
  "backends (onWriteDone c s) = backends s"
  "backends (onWriteFailed c e s) = backends s"
  "backends (resolveHealthCheck c now s) = backends s"
  "backends (handleHealthCheckObservation b now s) = backends s"
  "instanceId (onTimeout c pr s) = instanceId s"
  "instanceId (onWriteDone c s) = instanceId s"
  "instanceId (onWriteFailed c e s) = instanceId s"
  "instanceId (resolveHealthCheck c now s) = instanceId s"
  "instanceId (handleHealthCheckObservation b now s) = instanceId s"
  "nextHealthCheckId (onTimeout c pr s) = nextHealthCheckId s"
  "nextHealthCheckId (onWriteDone c s) = nextHealthCheckId s"
  "nextHealthCheckId (onWriteFailed c e s) = nextHealthCheckId s"
  "nextHealthCheckId (resolveHealthCheck c now s) = nextHealthCheckId s"
  "nextHealthCheckId (handleHealthCheckObservation b now s) = nextHealthCheckId s"
  "activeWatcher (onTimeout c pr s) = activeWatcher s"
  "activeWatcher (onWriteDone c s) = activeWatcher s"
  "activeWatcher (onWriteFailed c e s) = activeWatcher s"
  "activeWatcher (resolveHealthCheck c now s) = activeWatcher s"
  "activeWatcher (handleHealthCheckObservation b now s) = activeWatcher s"
  "slots (onTimeout c pr s) = slots s"
  "slots (onWriteDone c s) = slots s"
  "slots (onWriteFailed c e s) = slots s"
  "slots (resolveHealthCheck c now s) = slots s"
  "slots (handleHealthCheckObservation b now s) = slots s"
  "watchCalls (onTimeout c pr s) = watchCalls s"
  "watchCalls (onWriteDone c s) = watchCalls s"
  "watchCalls (onWriteFailed c e s) = watchCalls s"
  "watchCalls (resolveHealthCheck c now s) = watchCalls s"
  "watchCalls (handleHealthCheckObservation b now s) = watchCalls s"
  "forwarded (onTimeout c pr s) = forwarded s"
  "forwarded (onWriteDone c s) = forwarded s"
  "forwarded (onWriteFailed c e s) = forwarded s"
  "forwarded (resolveHealthCheck c now s) = forwarded s"
  "forwarded (handleHealthCheckObservation b now s) = forwarded s"
  "length (checks (onTimeout c pr s)) = length (checks s)"
  "length (checks (onWriteDone c s)) = length (checks s)"
  "length (checks (onWriteFailed c e s)) = length (checks s)"
  "length (checks (resolveHealthCheck c now s)) = length (checks s)"
  "length (checks (handleHealthCheckObservation b now s)) = length (checks s)"
  by (simp_all add: health_defs split: option.splits)

lemma frame_settle_watch [simp]:
  "options (settle_watch k s) = options s"
  "instanceId (settle_watch k s) = instanceId s"
  "nextHealthCheckId (settle_watch k s) = nextHealthCheckId s"
  "pendingHealthChecks (settle_watch k s) = pendingHealthChecks s"
  "activeWatcher (settle_watch k s) = activeWatcher s"
  "slots (settle_watch k s) = slots s"
  "checks (settle_watch k s) = checks s"
  "forwarded (settle_watch k s) = forwarded s"
  "length (watchCalls (settle_watch k s)) = length (watchCalls s)"
  by (simp_all add: settle_watch_def Let_def split: option.splits)

lemma frame_watch [simp]:
  "options (watch pf ctor s) = options s"
  "instanceId (watch pf ctor s) = instanceId s"
  "nextHealthCheckId (watch pf ctor s) = nextHealthCheckId s"
  "pendingHealthChecks (watch pf ctor s) = pendingHealthChecks s"
  "checks (watch pf ctor s) = checks s"
  "forwarded (watch pf ctor s) = forwarded s"
  by (simp_all add: watch_def Let_def split: prod.splits option.splits)

lemma frame_onReady [simp]:
  "options (onReady i s) = options s"
  "instanceId (onReady i s) = instanceId s"
  "nextHealthCheckId (onReady i s) = nextHealthCheckId s"
  "pendingHealthChecks (onReady i s) = pendingHealthChecks s"
  "activeWatcher (onReady i s) = activeWatcher s"
  "checks (onReady i s) = checks s"
  "forwarded (onReady i s) = forwarded s"
  "length (slots (onReady i s)) = length (slots s)"
  "length (watchCalls (onReady i s)) = length (watchCalls s)"
  by (simp_all add: onReady_def Let_def)

lemma frame_onStartTimeout [simp]:
  "options (onStartTimeout i s) = options s"
  "instanceId (onStartTimeout i s) = instanceId s"
  "nextHealthCheckId (onStartTimeout i s) = nextHealthCheckId s"
  "pendingHealthChecks (onStartTimeout i s) = pendingHealthChecks s"
  "activeWatcher (onStartTimeout i s) = activeWatcher s"
  "checks (onStartTimeout i s) = checks s"
  "forwarded (onStartTimeout i s) = forwarded s"
  "length (slots (onStartTimeout i s)) = length (slots s)"
  "length (watchCalls (onStartTimeout i s)) = length (watchCalls s)"
  by (simp_all add: onStartTimeout_def Let_def)

lemma result_resolve:
  assumes "c < length (checks s)" "result (checks s ! c) = Some r"
  shows "result (checks (resolveHealthCheck c' now s) ! c) = Some r"
  using assms by (simp add: resolveHealthCheck_def checks_react nth_list_update)

lemma result_step:
  assumes "c < length (checks s)" "result (checks s ! c) = Some r"
  shows "result (checks (step pf s t) ! c) = Some r"
proof (cases t)
  case (Watch ctor)
  with assms show ?thesis by simp
next
  case (Ready i)
  with assms show ?thesis by simp
next
  case (StartTimeout i)
  with assms show ?thesis by simp
next
  case (Emit i ch now)
  with assms show ?thesis
    by (simp add: onAll_def handleHealthCheckObservation_def result_resolve Let_def split: option.splits)
next
  case (CheckHealth timeout now)
  with assms show ?thesis by (simp add: checkHealth_def Let_def nth_append)
next
  case (Timeout c' pr)
  with assms show ?thesis by (simp add: onTimeout_def checks_react nth_list_update)
next
  case (WriteDone c')
  with assms show ?thesis by (simp add: onWriteDone_def checks_react nth_list_update)
next
  case (WriteFailed c' e)
  with assms show ?thesis by (simp add: onWriteFailed_def checks_react nth_list_update)
qed

lemma returned_step:
  assumes "c < length (checks s)" "result (checks s ! c) = Some r"
  shows "returned (checks (step pf s t) ! c) = returned (checks s ! c)
       \<or> returned (checks (step pf s t) ! c) = Some (Inr r)"
proof (cases t)
  case (Watch ctor)
  with assms show ?thesis by simp
next
  case (Ready i)
  with assms show ?thesis by simp
next
  case (StartTimeout i)
  with assms show ?thesis by simp
next
  case (Emit i ch now)
  with assms show ?thesis
    by (simp add: onAll_def health_defs checks_react nth_list_update finish_def nullthrows_def
        Let_def split: option.splits)
next
  case (CheckHealth timeout now)
  with assms show ?thesis by (simp add: checkHealth_def Let_def nth_append)
next
  case (Timeout c' pr)
  with assms show ?thesis
    by (simp add: onTimeout_def checks_react nth_list_update finish_def nullthrows_def)
next
  case (WriteDone c')
  with assms show ?thesis
    by (simp add: onWriteDone_def checks_react nth_list_update finish_def nullthrows_def)
next
  case (WriteFailed c' e)
  with assms show ?thesis
    by (simp add: onWriteFailed_def checks_react nth_list_update finish_def nullthrows_def)
qed

lemma length_checks_step: "length (checks s) \<le> length (checks (step pf s t))"
  by (cases t) (simp_all add: onAll_def checkHealth_def Let_def)

lemma run_Nil [simp]: "run pf s [] = s"
  by (simp add: run_def)

lemma run_Cons [simp]: "run pf s (t # ts) = run pf (step pf s t) ts"
  by (simp add: run_def)

lemma run_append: "run pf s (ts @ us) = run pf (run pf s ts) us"
  by (simp add: run_def)

lemma run_snoc: "run pf s (ts @ [t]) = step pf (run pf s ts) t"
  by (simp add: run_def)

lemma length_checks_run: "length (checks s) \<le> length (checks (run pf s ts))"
proof (induction ts arbitrary: s)
  case Nil
  show ?case by simp
next
  case (Cons t ts)
  have "length (checks s) \<le> length (checks (step pf s t))" by (rule length_checks_step)
  also have "\<dots> \<le> length (checks (run pf (step pf s t) ts))" by (rule Cons.IH)
  finally show ?case by simp
qed

lemma result_run:
  assumes "c < length (checks s)" and "result (checks s ! c) = Some r"
  shows "result (checks (run pf s ts) ! c) = Some r"
  using assms
proof (induction ts arbitrary: s)
  case Nil
  then show ?case by simp
next
  case (Cons t ts)
  from Cons.prems(1) length_checks_step [of s pf t]
  have "c < length (checks (step pf s t))" by simp
  from Cons.IH [OF this result_step [OF Cons.prems]] show ?case by simp
qed

subsection \<open>C5: the result slot is assigned once\<close>

text \<open>
  Claim C5. Once the variable \<open>result\<close> of a call of \<open>checkHealth\<close> holds a value,
  whatever happens afterwards (the other tasks of the race completing, further events,
  other calls) leaves it unchanged, and the value the call returns, if it has not returned
  already, is that value: the first writer decides and nothing is retracted.
\<close>

theorem result_slot_single_assignment:
  assumes "c < length (checks s)" and "result (checks s ! c) = Some r"
  shows "result (checks (run pf s ts) ! c) = Some r
       \<and> (returned (checks (run pf s ts) ! c) = returned (checks s ! c)
          \<or> returned (checks (run pf s ts) ! c) = Some (Inr r))"
  using assms
proof (induction ts arbitrary: s)
  case Nil
  then show ?case by simp
next
  case (Cons t ts)
  let ?s = "step pf s t"
  from Cons.prems(1) length_checks_step [of s pf t] have c: "c < length (checks ?s)" by simp
  have r: "result (checks ?s ! c) = Some r" by (rule result_step [OF Cons.prems])
  from Cons.IH [OF c r] returned_step [OF Cons.prems, of pf t]
  show ?case by auto
qed

lemma check_ok_new:
  "check_ok \<lparr> hc_id = i, hc_basename = b, hc_timeout = t, hc_watcher = w, hc_startTime = st,
     result = None, timeoutDone = False, creationDone = False, observationDone = False,
     returned = None \<rparr>"
  by (simp add: check_ok_def)

lemma check_ok_timeout:
  "check_ok h \<Longrightarrow> check_ok (finish (h\<lparr> timeoutDone := True,
      result := (if result h = None then Some r else result h) \<rparr>))"
  by (auto simp: check_ok_def finish_def nullthrows_def)

lemma check_ok_writeDone:
  "check_ok h \<Longrightarrow> check_ok (finish (h\<lparr> creationDone := True \<rparr>))"
  by (auto simp: check_ok_def finish_def nullthrows_def)

lemma check_ok_writeFailed:
  "check_ok h \<Longrightarrow> check_ok (finish (h\<lparr> creationDone := True,
      result := (if result h = None then Some r else result h) \<rparr>))"
  by (auto simp: check_ok_def finish_def nullthrows_def)

lemma check_ok_observed:
  "check_ok h \<Longrightarrow> check_ok (finish (h\<lparr> observationDone := True,
      result := (if result h = None then Some r else result h) \<rparr>))"
  by (auto simp: check_ok_def finish_def nullthrows_def)

lemma list_all_update:
  "list_all P xs \<Longrightarrow> P x \<Longrightarrow> list_all P (xs[i := x])"
  by (auto simp: list_all_iff dest: set_update_subset_insert [THEN subsetD])

lemma list_all_nth: "list_all P xs \<Longrightarrow> i < length xs \<Longrightarrow> P (xs ! i)"
  by (simp add: list_all_length)

lemma registry_ok_react:
  assumes "registry_ok s" and "c < length (checks s)"
    and "hc_basename (f (checks s ! c)) = hc_basename (checks s ! c)"
    and "returned (f (checks s ! c)) = returned (checks s ! c)"
  shows "registry_ok (react c f s)"
  unfolding registry_ok_def
proof (intro allI impI)
  fix b c'
  assume p: "pendingHealthChecks (react c f s) b = Some c'"
  let ?h = "f (checks s ! c)"
  let ?fire = "returned ?h = None \<and> (timeoutDone ?h \<or> (creationDone ?h \<and> observationDone ?h))"
  from p assms(2) have old: "pendingHealthChecks s b = Some c'"
    by (simp add: pending_react split: if_splits)
  with assms(1) have c': "c' < length (checks s)" "hc_basename (checks s ! c') = b"
    "returned (checks s ! c') = None"
    by (auto simp: registry_ok_def)
  have "returned (checks (react c f s) ! c') = None"
  proof (cases "c' = c")
    case False
    with c' assms(2) show ?thesis by (simp add: checks_react)
  next
    case True
    have "\<not> ?fire"
    proof
      assume ?fire
      with p assms(2,3) c'(2) True show False by (simp add: pending_react)
    qed
    with True c' assms(2,4) show ?thesis
      by (auto simp add: checks_react finish_def)
  qed
  with c' assms(2,3) show "c' < length (checks (react c f s)) \<and>
      hc_basename (checks (react c f s) ! c') = b \<and> returned (checks (react c f s) ! c') = None"
    by (auto simp add: checks_react nth_list_update)
qed

lemma health_ok_onTimeout: "health_ok s \<Longrightarrow> health_ok (onTimeout c pr s)"
  unfolding health_ok_def onTimeout_def
  by (auto simp: registry_ok_react checks_react list_all_update list_all_nth check_ok_timeout)

lemma health_ok_onWriteDone: "health_ok s \<Longrightarrow> health_ok (onWriteDone c s)"
  unfolding health_ok_def onWriteDone_def
  by (auto simp: registry_ok_react checks_react list_all_update list_all_nth check_ok_writeDone)

lemma health_ok_onWriteFailed: "health_ok s \<Longrightarrow> health_ok (onWriteFailed c e s)"
  unfolding health_ok_def onWriteFailed_def
  by (auto simp: registry_ok_react checks_react list_all_update list_all_nth check_ok_writeFailed)

lemma health_ok_resolve: "health_ok s \<Longrightarrow> health_ok (resolveHealthCheck c now s)"
  unfolding health_ok_def resolveHealthCheck_def
  by (auto simp: registry_ok_react checks_react list_all_update list_all_nth check_ok_observed)

lemma registry_ok_checkHealth:
  assumes "registry_ok s"
  shows "registry_ok (checkHealth pf timeout now s)"
  unfolding registry_ok_def
proof (intro allI impI)
  fix b c
  let ?s = "checkHealth pf timeout now s"
  let ?b = "cookie_basename pf s (nextHealthCheckId s)"
  assume p: "pendingHealthChecks ?s b = Some c"
  show "c < length (checks ?s) \<and> hc_basename (checks ?s ! c) = b \<and> returned (checks ?s ! c) = None"
  proof (cases "b = ?b")
    case True
    with p have "c = length (checks s)" by (simp add: checkHealth_def Let_def)
    with True show ?thesis by (simp add: checkHealth_def Let_def)
  next
    case False
    with p have "pendingHealthChecks s b = Some c" by (simp add: checkHealth_def Let_def)
    with assms have "c < length (checks s)" "hc_basename (checks s ! c) = b"
      "returned (checks s ! c) = None"
      by (auto simp: registry_ok_def)
    then show ?thesis by (simp add: checkHealth_def Let_def nth_append)
  qed
qed

lemma health_ok_checkHealth: "health_ok s \<Longrightarrow> health_ok (checkHealth pf timeout now s)"
  unfolding health_ok_def
  by (simp add: registry_ok_checkHealth) (simp add: checkHealth_def Let_def check_ok_new)

lemma health_ok_frame:
  "checks s' = checks s \<Longrightarrow> pendingHealthChecks s' = pendingHealthChecks s \<Longrightarrow>
   health_ok s \<Longrightarrow> health_ok s'"
  by (simp add: health_ok_def registry_ok_def)

lemma health_ok_step: "health_ok s \<Longrightarrow> health_ok (step pf s t)"
proof (cases t)
  case (Emit i ch now)
  assume "health_ok s"
  with Emit show ?thesis
    by (auto simp: onAll_def handleHealthCheckObservation_def health_ok_resolve Let_def
        intro: health_ok_frame split: option.splits)
qed (auto simp: health_ok_onTimeout health_ok_onWriteDone health_ok_onWriteFailed
      health_ok_checkHealth intro: health_ok_frame)

lemma health_ok_run: "health_ok s \<Longrightarrow> health_ok (run pf s ts)"
  by (induction ts arbitrary: s) (simp_all add: health_ok_step)

lemma health_ok_new: "health_ok (Watcher_new opts inst)"
  by (simp add: health_ok_def registry_ok_def Watcher_new_def)

lemmas exec_defs = fresh_def Watcher_new_def demo_options_def posix_def watch_def settle_watch_def
  first_rejection_def onReady_def onStartTimeout_def onAll_def checkHealth_def cookie_basename_def
  afterRace_def react_def onTimeout_def onWriteDone_def onWriteFailed_def resolveHealthCheck_def
  handleHealthCheckObservation_def nullthrows_def watcherName_def startsWith_def
  posix_basename_def string_of_nat.simps digit_char_def MAX_WAIT_TIME_def MAX_SAFE_INTEGER_def
  Let_def

subsection \<open>The inputs, evaluated\<close>

lemma ready_watcher_eq:
  "ready_watcher =
     \<lparr> options = demo_options, backends = [0], instanceId = 0, nextHealthCheckId = 0,
       pendingHealthChecks = Map.empty, activeWatcher = Some ''watchman'',
       slots = [\<lparr> bs_root = ''/proj'', bs_call = 0, bs_rejectTimeout = Cleared,
                  bs_ready = True, bs_started = Fulfilled \<rparr>],
       watchCalls = [\<lparr> wc_backends = [0], wc_promise = Fulfilled \<rparr>],
       checks = [], forwarded = [] \<rparr>"
  by (simp add: ready_watcher_def exec_defs)

lemma failed_write_eq:
  "failed_write =
     ready_watcher\<lparr> nextHealthCheckId := 1,
       pendingHealthChecks := [''.metro-health-check-4242-0-0'' \<mapsto> 0],
       checks := [\<lparr> hc_id = 0, hc_basename = ''.metro-health-check-4242-0-0'',
          hc_timeout = 1000, hc_watcher = Some ''watchman'', hc_startTime = 10,
          result = Some (HC_error 1000 walk_failed (Some ''watchman'')),
          timeoutDone = False, creationDone = True, observationDone = False,
          returned = None \<rparr>] \<rparr>"
  by (simp add: failed_write_def ready_watcher_eq) (simp add: exec_defs)

lemma half_ready_eq:
  "half_ready =
     \<lparr> options = two_roots, backends = [], instanceId = 0, nextHealthCheckId = 0,
       pendingHealthChecks = Map.empty, activeWatcher = Some ''watchman'',
       slots = [\<lparr> bs_root = ''/a'', bs_call = 0, bs_rejectTimeout = Cleared,
                  bs_ready = True, bs_started = Fulfilled \<rparr>,
                \<lparr> bs_root = ''/b'', bs_call = 0, bs_rejectTimeout = Armed 240000,
                  bs_ready = False, bs_started = Pending \<rparr>],
       watchCalls = [\<lparr> wc_backends = [0, 1], wc_promise = Pending \<rparr>],
       checks = [], forwarded = [] \<rparr>"
  by (simp add: half_ready_def two_roots_def exec_defs)

lemma cookie_written_eq:
  "cookie_written =
     ready_watcher\<lparr> nextHealthCheckId := 1,
       pendingHealthChecks := [''.metro-health-check-4242-0-0'' \<mapsto> 0],
       checks := [\<lparr> hc_id = 0, hc_basename = ''.metro-health-check-4242-0-0'',
          hc_timeout = 1000, hc_watcher = Some ''watchman'', hc_startTime = 10,
          result = None, timeoutDone = False, creationDone = True, observationDone = False,
          returned = None \<rparr>] \<rparr>"
  by (simp add: cookie_written_def ready_watcher_eq) (simp add: exec_defs)

lemma ready_watcher_reached: "ready_watcher = run posix (Watcher_new demo_options 0) [Watch [], Ready 0]"
  by (simp only: ready_watcher_def fresh_def)

lemma one_check_eq:
  "one_check =
     ready_watcher\<lparr> nextHealthCheckId := 1,
       pendingHealthChecks := [''.metro-health-check-4242-0-0'' \<mapsto> 0],
       checks := [\<lparr> hc_id = 0, hc_basename = ''.metro-health-check-4242-0-0'',
          hc_timeout = 1000, hc_watcher = Some ''watchman'', hc_startTime = 10,
          result = None, timeoutDone = False, creationDone = False, observationDone = False,
          returned = None \<rparr>] \<rparr>"
  by (simp add: one_check_def ready_watcher_eq) (simp add: exec_defs)

lemma two_checks_eq:
  "two_checks =
     ready_watcher\<lparr> nextHealthCheckId := 2,
       pendingHealthChecks := [''.metro-health-check-4242-0-0'' \<mapsto> 0,
                               ''.metro-health-check-4242-0-1'' \<mapsto> 1],
       checks := [\<lparr> hc_id = 0, hc_basename = ''.metro-health-check-4242-0-0'',
          hc_timeout = 1000, hc_watcher = Some ''watchman'', hc_startTime = 10,
          result = None, timeoutDone = False, creationDone = False, observationDone = False,
          returned = None \<rparr>,
        \<lparr> hc_id = 1, hc_basename = ''.metro-health-check-4242-0-1'',
          hc_timeout = 1000, hc_watcher = Some ''watchman'', hc_startTime = 11,
          result = None, timeoutDone = False, creationDone = False, observationDone = False,
          returned = None \<rparr>] \<rparr>"
  by (simp add: two_checks_def ready_watcher_eq) (simp add: exec_defs)

lemma two_checks_reached:
  "two_checks = run posix (Watcher_new demo_options 0)
     ([Watch [], Ready 0] @ [CheckHealth 1000 10, CheckHealth 1000 11])"
  unfolding run_append by (simp only: two_checks_def ready_watcher_def fresh_def)

lemma failed_write_reached:
  "failed_write = run posix (Watcher_new demo_options 0)
     ([Watch [], Ready 0] @ [CheckHealth 1000 10, WriteFailed 0 walk_failed])"
  unfolding run_append by (simp only: failed_write_def ready_watcher_def fresh_def)

lemma cookie_written_reached:
  "cookie_written = run posix (Watcher_new demo_options 0)
     ([Watch [], Ready 0] @ [CheckHealth 1000 10, WriteDone 0])"
  unfolding run_append by (simp only: cookie_written_def ready_watcher_def fresh_def)

lemma still_delivering_reached:
  "still_delivering = run posix (Watcher_new two_roots 0)
     ([Watch [], Ready 0] @ [StartTimeout 1, Emit 0 source_changed 5])"
  unfolding run_append by (simp only: still_delivering_def half_ready_def)

lemma still_delivering_facts:
  "length (watchCalls still_delivering) = 1"
  "wc_promise (watchCalls still_delivering ! 0) =
     Rejected (JsError ''Error'' ''Failed to start watch mode.'')"
  "forwarded still_delivering = [(0, source_changed)]"
  by (simp_all add: still_delivering_def half_ready_eq)
     (simp_all add: exec_defs two_roots_def source_changed_def)

theorem result_slot_single_assignment_witness:
  "result (checks (run posix failed_write [Emit 0 cookie_added 15, Timeout 0 None]) ! 0) =
     Some (HC_error 1000 walk_failed (Some ''watchman''))
   \<and> returned (checks (run posix failed_write [Emit 0 cookie_added 15, Timeout 0 None]) ! 0) =
     Some (Inr (HC_error 1000 walk_failed (Some ''watchman'')))"
proof -
  have 1: "0 < length (checks failed_write)"
    by (simp add: failed_write_eq)
  have 2: "result (checks failed_write ! 0) = Some (HC_error 1000 walk_failed (Some ''watchman''))"
    by (simp add: failed_write_eq)
  have 3: "returned (checks failed_write ! 0) = None"
    by (simp add: failed_write_eq)
  have 4: "returned (checks (run posix failed_write [Emit 0 cookie_added 15, Timeout 0 None]) ! 0)
      \<noteq> None"
    by (simp add: failed_write_eq ready_watcher_eq cookie_added_def) (simp add: exec_defs)
  from result_slot_single_assignment [OF 1 2, of posix "[Emit 0 cookie_added 15, Timeout 0 None]"]
    3 4 show ?thesis by auto
qed

subsection \<open>C10: an observation without a pending entry\<close>

text \<open>
  Claim C10. When the registry has no entry for a basename, the observation handler
  called with it returns the state as it is: no error, the registry and every pending
  check untouched. The same holds for the whole listener when a backend emits an event
  whose basename starts with the prefix and has no entry.
\<close>

theorem stray_observation_changes_nothing:
  assumes "pendingHealthChecks s basename = None"
  shows "handleHealthCheckObservation basename now s = s
       \<and> (path_basename pf (relativePath change) = basename \<longrightarrow>
            startsWith basename (healthCheckFilePrefix (options s)) \<longrightarrow>
            step pf s (Emit i change now) = s)"
  using assms by (simp add: handleHealthCheckObservation_def onAll_def Let_def)

theorem stray_observation_changes_nothing_witness:
  "handleHealthCheckObservation ''.metro-health-check-977-3-12'' 5 failed_write = failed_write
   \<and> step posix failed_write (Emit 0 stray_cookie 5) = failed_write"
proof -
  have 1: "pendingHealthChecks failed_write ''.metro-health-check-977-3-12'' = None"
    by (simp add: failed_write_eq)
  have 2: "path_basename posix (relativePath stray_cookie) = ''.metro-health-check-977-3-12''"
    by (simp add: posix_def stray_cookie_def posix_basename_def)
  have 3: "startsWith ''.metro-health-check-977-3-12'' (healthCheckFilePrefix (options failed_write))"
    by (simp add: failed_write_eq ready_watcher_eq demo_options_def startsWith_def)
  from stray_observation_changes_nothing [OF 1, of 5 posix stray_cookie 0] 2 3
  show ?thesis by simp
qed

subsection \<open>C2: routing of the events of a ready backend\<close>

text \<open>
  Claim C2, as amended. For an event emitted by a backend that has fired \<open>ready\<close>: when
  the basename of its path starts with the health-check prefix the event is never
  forwarded to \<open>onChange\<close>; it goes to the observation handler when its kind is add or
  change, and is dropped when its kind is delete. When the basename does not start with
  the prefix the event is forwarded to \<open>onChange\<close> as it is, whatever its kind.
\<close>

theorem all_listener_routing:
  assumes "i < length (slots s)" and "bs_ready (slots s ! i)"
    and "basename = path_basename pf (relativePath change)"
  shows "(startsWith basename (healthCheckFilePrefix (options s)) \<longrightarrow>
            forwarded (step pf s (Emit i change now)) = forwarded s
            \<and> (event change \<noteq> DELETE_EVENT \<longrightarrow>
                 step pf s (Emit i change now) = handleHealthCheckObservation basename now s)
            \<and> (event change = DELETE_EVENT \<longrightarrow> step pf s (Emit i change now) = s))
       \<and> (\<not> startsWith basename (healthCheckFilePrefix (options s)) \<longrightarrow>
            step pf s (Emit i change now) = s\<lparr> forwarded := forwarded s @ [(i, change)] \<rparr>)"
proof -
  have "forwarded (handleHealthCheckObservation basename now s) = forwarded s"
    by (simp add: health_defs split: option.splits)
  with assms show ?thesis
    by (cases "event change") (simp_all add: onAll_def Let_def)
qed

theorem all_listener_routing_witness:
  "step posix failed_write (Emit 0 cookie_added 15) =
     handleHealthCheckObservation ''.metro-health-check-4242-0-0'' 15 failed_write
   \<and> forwarded (step posix failed_write (Emit 0 cookie_added 15)) = []
   \<and> step posix failed_write (Emit 0 cookie_deleted 15) = failed_write
   \<and> forwarded (step posix failed_write (Emit 0 source_deleted 15)) = [(0, source_deleted)]"
proof -
  have 1: "0 < length (slots failed_write)" and 2: "bs_ready (slots failed_write ! 0)"
    by (simp_all add: failed_write_eq ready_watcher_eq)
  have b: "path_basename posix (relativePath cookie_added) = ''.metro-health-check-4242-0-0''"
    "path_basename posix (relativePath cookie_deleted) = ''.metro-health-check-4242-0-0''"
    "path_basename posix (relativePath source_deleted) = ''a.js''"
    by (simp_all add: posix_def cookie_added_def cookie_deleted_def source_deleted_def
        posix_basename_def)
  have p: "healthCheckFilePrefix (options failed_write) = ''.metro-health-check''"
    "forwarded failed_write = []"
    by (simp_all add: failed_write_eq ready_watcher_eq demo_options_def)
  have e: "event cookie_added \<noteq> DELETE_EVENT" "event cookie_deleted = DELETE_EVENT"
    by (simp_all add: cookie_added_def cookie_deleted_def)
  from all_listener_routing [OF 1 2 b(1) [symmetric], of 15]
       all_listener_routing [OF 1 2 b(2) [symmetric], of 15]
       all_listener_routing [OF 1 2 b(3) [symmetric], of 15] p e 1 2
  show ?thesis by (simp add: startsWith_def)
qed

text \<open>
  The claim as stated fails: a delete event whose basename starts with the prefix is not
  forwarded to \<open>onChange\<close>.
\<close>

theorem prefixed_delete_not_forwarded:
  "bs_ready (slots failed_write ! 0)
   \<and> event cookie_deleted \<noteq> ADD_EVENT \<and> event cookie_deleted \<noteq> CHANGE_EVENT
   \<and> forwarded (step posix failed_write (Emit 0 cookie_deleted 15)) \<noteq>
       forwarded failed_write @ [(0, cookie_deleted)]"
  by (simp add: failed_write_eq ready_watcher_eq cookie_deleted_def onAll_def posix_def
      posix_basename_def startsWith_def demo_options_def Let_def)

lemma first_rejection_None:
  "first_rejection (map g js) = None \<longleftrightarrow> (\<forall>i \<in> set js. g i = Pending \<or> g i = Fulfilled)"
proof (induction js)
  case Nil
  show ?case by (simp add: first_rejection_def)
next
  case (Cons j js)
  then show ?case
    by (cases "g j") (auto simp: first_rejection_def)
qed

lemma first_rejection_Some:
  assumes "\<forall>i \<in> set js. g i = Pending \<or> g i = Fulfilled \<or> g i = Rejected e"
    and "\<exists>i \<in> set js. g i = Rejected e"
  shows "first_rejection (map g js) = Some e"
  using assms
proof (induction js)
  case Nil
  then show ?case by simp
next
  case (Cons j js)
  show ?case
  proof (cases "g j")
    case Pending
    with Cons show ?thesis by (auto simp: first_rejection_def)
  next
    case Fulfilled
    with Cons show ?thesis by (auto simp: first_rejection_def)
  next
    case (Rejected e')
    with Cons.prems(1) have "e' = e" by auto
    with Rejected show ?thesis by (simp add: first_rejection_def)
  qed
qed

lemma settle_watch_calls:
  "watchCalls (settle_watch k s) =
     (let w = watchCalls s ! k;
          ps = map (\<lambda>i. bs_started (slots s ! i)) (wc_backends w)
      in if wc_promise w \<noteq> Pending then watchCalls s
         else case first_rejection ps of
                Some e \<Rightarrow> (watchCalls s)[k := w\<lparr> wc_promise := Rejected e \<rparr>]
              | None \<Rightarrow>
                  if list_all (\<lambda>p. p = Fulfilled) ps
                  then (watchCalls s)[k := w\<lparr> wc_promise := Fulfilled \<rparr>]
                  else watchCalls s)"
  by (simp add: settle_watch_def Let_def split: option.splits)

lemma settle_watch_backends_of:
  "k' < length (watchCalls s) \<Longrightarrow>
   wc_backends (watchCalls (settle_watch k s) ! k') = wc_backends (watchCalls s ! k')"
  by (cases "k' = k") (simp_all add: settle_watch_calls Let_def split: option.splits)

lemma settle_watch_other:
  "k' \<noteq> k \<Longrightarrow> watchCalls (settle_watch k s) ! k' = watchCalls s ! k'"
  by (simp add: settle_watch_calls Let_def split: option.splits)

lemma settle_watch_not_pending:
  "wc_promise (watchCalls s ! k) \<noteq> Pending \<Longrightarrow> settle_watch k s = s"
  by (simp add: settle_watch_def Let_def)

lemma settle_watch_promise:
  assumes "k < length (watchCalls s)" and "wc_promise (watchCalls s ! k) = Pending"
  shows "wc_promise (watchCalls (settle_watch k s) ! k) =
     (case first_rejection (map (\<lambda>i. bs_started (slots s ! i)) (wc_backends (watchCalls s ! k))) of
        Some e \<Rightarrow> Rejected e
      | None \<Rightarrow>
          if (\<forall>i \<in> set (wc_backends (watchCalls s ! k)). bs_started (slots s ! i) = Fulfilled)
          then Fulfilled else Pending)"
  using assms
  by (simp add: settle_watch_calls Let_def list_all_iff split: option.splits)

lemma cwb_Cons:
  "createWatcherBackends k ctor (r # rs) =
     (if ctor \<noteq> [] \<and> hd ctor \<noteq> None then ([], hd ctor)
      else (\<lparr> bs_root = r, bs_call = k, bs_rejectTimeout = Armed MAX_WAIT_TIME,
               bs_ready = False, bs_started = Pending \<rparr> # fst (createWatcherBackends k (tl ctor) rs),
            snd (createWatcherBackends k (tl ctor) rs)))"
  by (cases ctor) (auto split: prod.splits option.splits)

lemma cwb_slots:
  "b \<in> set (fst (createWatcherBackends k ctor rs)) \<Longrightarrow>
   bs_call b = k \<and> bs_rejectTimeout b = Armed MAX_WAIT_TIME \<and> \<not> bs_ready b \<and> bs_started b = Pending"
proof (induction rs arbitrary: ctor)
  case Nil
  then show ?case by simp
next
  case (Cons r rs)
  from Cons.prems Cons.IH [of "tl ctor"] show ?case
    by (auto simp: cwb_Cons simp del: createWatcherBackends.simps split: if_splits)
qed

lemma cwb_roots:
  "snd (createWatcherBackends k ctor rs) = None \<Longrightarrow>
   map bs_root (fst (createWatcherBackends k ctor rs)) = rs"
proof (induction rs arbitrary: ctor)
  case Nil
  then show ?case by simp
next
  case (Cons r rs)
  from Cons.prems Cons.IH [of "tl ctor"] show ?case
    by (auto simp: cwb_Cons simp del: createWatcherBackends.simps split: if_splits)
qed

lemma cwb_failure:
  "j < length rs \<Longrightarrow> j < length ctor \<Longrightarrow> ctor ! j = Some e \<Longrightarrow> \<forall>j' < j. ctor ! j' = None \<Longrightarrow>
   snd (createWatcherBackends k ctor rs) = Some e"
proof (induction rs arbitrary: ctor j)
  case Nil
  then show ?case by simp
next
  case (Cons r rs)
  from Cons.prems(2) obtain f fs where ctor: "ctor = f # fs" by (cases ctor) auto
  show ?case
  proof (cases j)
    case 0
    with Cons.prems ctor show ?thesis
      by (simp add: cwb_Cons del: createWatcherBackends.simps)
  next
    case (Suc j')
    with Cons.prems ctor have f: "f = None" by auto
    from Suc Cons.prems ctor have "snd (createWatcherBackends k fs rs) = Some e"
      by (intro Cons.IH [of j']) auto
    with f ctor show ?thesis
      by (simp add: cwb_Cons del: createWatcherBackends.simps)
  qed
qed

lemma watch_unfold:
  "watch pf ctor s =
     (let k = length (watchCalls s);
          bs = fst (createWatcherBackends k ctor (roots (options s)));
          made = [length (slots s) ..< length (slots s) + length bs];
          s1 = s\<lparr> activeWatcher := Some (watcherName pf (options s)),
                  slots := slots s @ bs \<rparr>
      in case snd (createWatcherBackends k ctor (roots (options s))) of
           Some e \<Rightarrow>
             s1\<lparr> watchCalls := watchCalls s @ [\<lparr> wc_backends = made, wc_promise = Rejected e \<rparr>] \<rparr>
         | None \<Rightarrow>
             settle_watch k
               (s1\<lparr> watchCalls := watchCalls s @ [\<lparr> wc_backends = made, wc_promise = Pending \<rparr>] \<rparr>))"
  by (cases "createWatcherBackends (length (watchCalls s)) ctor (roots (options s))")
     (simp add: watch_def Let_def split: option.splits)

lemma slots_watch:
  "slots (watch pf ctor s) =
     slots s @ fst (createWatcherBackends (length (watchCalls s)) ctor (roots (options s)))"
  by (simp add: watch_unfold Let_def split: option.splits)

lemma activeWatcher_watch:
  "activeWatcher (watch pf ctor s) = Some (watcherName pf (options s))"
  by (simp add: watch_unfold Let_def split: option.splits)

lemma watchCalls_watch_failed:
  assumes "snd (createWatcherBackends (length (watchCalls s)) ctor (roots (options s))) = Some e"
  shows "watchCalls (watch pf ctor s) = watchCalls s @
     [\<lparr> wc_backends = [length (slots s) ..< length (slots s) +
          length (fst (createWatcherBackends (length (watchCalls s)) ctor (roots (options s))))],
        wc_promise = Rejected e \<rparr>]"
  using assms by (simp add: watch_unfold Let_def)

lemma map_nth_append_upt:
  "map (\<lambda>i. f ((xs @ ys) ! i)) [length xs ..< length xs + length ys] = map f ys"
  by (rule nth_equalityI) (simp_all add: nth_append)

lemma watchCalls_watch_ok:
  assumes "snd (createWatcherBackends (length (watchCalls s)) ctor (roots (options s))) = None"
  shows "watchCalls (watch pf ctor s) = watchCalls s @
     [\<lparr> wc_backends = [length (slots s) ..< length (slots s) + length (roots (options s))],
        wc_promise = (if roots (options s) = [] then Fulfilled else Pending) \<rparr>]"
proof -
  let ?bs = "fst (createWatcherBackends (length (watchCalls s)) ctor (roots (options s)))"
  have "length (map bs_root ?bs) = length (roots (options s))"
    by (simp only: cwb_roots [OF assms])
  then have len: "length ?bs = length (roots (options s))" by simp
  have all: "\<forall>b \<in> set ?bs. bs_started b = Pending"
    using cwb_slots by blast
  then have fr: "first_rejection (map bs_started ?bs) = None"
    by (simp add: first_rejection_None)
  have fu: "list_all (\<lambda>p. p = Fulfilled) (map bs_started ?bs) \<longleftrightarrow> roots (options s) = []"
  proof (cases "?bs")
    case Nil
    with len show ?thesis by simp
  next
    case (Cons b bs)
    with all have "bs_started b = Pending" by simp
    with Cons len show ?thesis by auto
  qed
  let ?made = "[length (slots s) ..< length (slots s) + length ?bs]"
  let ?s1 = "s\<lparr> activeWatcher := Some (watcherName pf (options s)), slots := slots s @ ?bs,
      watchCalls := watchCalls s @ [\<lparr> wc_backends = ?made, wc_promise = Pending \<rparr>] \<rparr>"
  have w: "watch pf ctor s = settle_watch (length (watchCalls s)) ?s1"
    by (simp add: watch_unfold assms Let_def)
  have nth: "watchCalls ?s1 ! length (watchCalls s) = \<lparr> wc_backends = ?made, wc_promise = Pending \<rparr>"
    by simp
  have ps: "map (\<lambda>i. bs_started (slots ?s1 ! i)) (wc_backends (watchCalls ?s1 ! length (watchCalls s)))
      = map bs_started ?bs"
    unfolding nth by (simp add: map_nth_append_upt)
  have "watchCalls (settle_watch (length (watchCalls s)) ?s1) =
      (if roots (options s) = []
       then (watchCalls ?s1)[length (watchCalls s) :=
          \<lparr> wc_backends = ?made, wc_promise = Fulfilled \<rparr>]
       else watchCalls ?s1)"
    unfolding settle_watch_calls Let_def ps fr fu
    unfolding nth by simp
  then show ?thesis
    unfolding w by (simp add: len)
qed


lemma slot_ok_Fulfilled_ready: "slot_ok b \<Longrightarrow> bs_started b = Fulfilled \<Longrightarrow> bs_ready b"
  by (cases "bs_rejectTimeout b") (simp_all add: slot_ok_def)

lemma watch_ok_update_slot:
  assumes ok: "watch_ok s" and i: "i < length (slots s)"
    and b': "slot_ok b'" "bs_call b' = bs_call (slots s ! i)" "bs_root b' = bs_root (slots s ! i)"
      "bs_ready (slots s ! i) \<longrightarrow> bs_ready b'"
  shows "watch_ok (settle_watch (bs_call (slots s ! i)) (s\<lparr> slots := (slots s)[i := b'] \<rparr>))"
proof -
  let ?k = "bs_call (slots s ! i)"
  let ?s1 = "s\<lparr> slots := (slots s)[i := b'] \<rparr>"
  let ?s' = "settle_watch ?k ?s1"
  from ok i have k: "?k < length (watchCalls s)"
    and ik: "i \<in> set (wc_backends (watchCalls s ! ?k))"
    by (auto simp: watch_ok_def)
  have sl: "slots ?s' = (slots s)[i := b']" by simp
  have fw: "forwarded ?s' = forwarded s" by simp
  have op: "options ?s' = options s" by simp
  have len: "length (watchCalls ?s') = length (watchCalls s)" by simp
  have bk: "wc_backends (watchCalls ?s' ! k') = wc_backends (watchCalls s ! k')"
    if "k' < length (watchCalls s)" for k'
    using settle_watch_backends_of [of k' ?s1 ?k] that by simp
  have other: "watchCalls ?s' ! k' = watchCalls s ! k'" if "k' \<noteq> ?k" for k'
    using settle_watch_other [OF that, of ?s1] by simp
  have same: "watchCalls ?s' ! ?k = watchCalls s ! ?k"
    if "wc_promise (watchCalls s ! ?k) \<noteq> Pending"
    using settle_watch_not_pending [of ?s1 ?k] that by simp
  have prom: "wc_promise (watchCalls ?s' ! ?k) =
      (case first_rejection (map (\<lambda>j. bs_started ((slots s)[i := b'] ! j))
              (wc_backends (watchCalls s ! ?k))) of
         Some e \<Rightarrow> Rejected e
       | None \<Rightarrow>
           if (\<forall>j \<in> set (wc_backends (watchCalls s ! ?k)).
                 bs_started ((slots s)[i := b'] ! j) = Fulfilled)
           then Fulfilled else Pending)"
    if "wc_promise (watchCalls s ! ?k) = Pending"
    using settle_watch_promise [of ?k ?s1] k that by (auto split: option.splits)
  have slot: "slot_ok ((slots s)[i := b'] ! j)" if "j < length (slots s)" for j
    using ok b'(1) i that by (auto simp: watch_ok_def nth_list_update)
  have call: "bs_call ((slots s)[i := b'] ! j) = bs_call (slots s ! j)" if "j < length (slots s)" for j
    using b'(2) i that by (auto simp: nth_list_update)
  have root: "bs_root ((slots s)[i := b'] ! j) = bs_root (slots s ! j)" if "j < length (slots s)" for j
    using b'(3) i that by (auto simp: nth_list_update)
  have ready: "bs_ready ((slots s)[i := b'] ! j)" if "j < length (slots s)" "bs_ready (slots s ! j)" for j
    using b'(4) i that by (auto simp: nth_list_update)
  have part1: "slot_ok (slots ?s' ! j) \<and> bs_call (slots ?s' ! j) < length (watchCalls ?s')
      \<and> j \<in> set (wc_backends (watchCalls ?s' ! bs_call (slots ?s' ! j)))"
    if "j < length (slots ?s')" for j
  proof -
    from that have j: "j < length (slots s)" by simp
    with ok have "bs_call (slots s ! j) < length (watchCalls s)"
      "j \<in> set (wc_backends (watchCalls s ! bs_call (slots s ! j)))"
      by (auto simp: watch_ok_def)
    with j show ?thesis
      unfolding sl len by (simp add: slot call bk)
  qed
  have part2: "call_ok ?s' k'" if k': "k' < length (watchCalls ?s')" for k'
  proof -
    from k' have kl: "k' < length (watchCalls s)" by simp
    with ok have c: "call_ok s k'" by (simp add: watch_ok_def)
    let ?w = "watchCalls s ! k'"
    from c have idx: "\<forall>j \<in> set (wc_backends ?w). j < length (slots s) \<and> bs_call (slots s ! j) = k'"
      by (simp add: call_ok_def Let_def)
    have c1: "\<forall>j \<in> set (wc_backends ?w). j < length (slots ?s') \<and> bs_call (slots ?s' ! j) = k'"
      using idx unfolding sl by (simp add: call)
    have roots_same: "map (\<lambda>j. bs_root (slots ?s' ! j)) (wc_backends ?w) =
        map (\<lambda>j. bs_root (slots s ! j)) (wc_backends ?w)"
      unfolding sl using idx by (simp add: root)
    have from_old: "wc_promise ?w = Pending \<or> wc_promise ?w = Fulfilled"
      if pf: "wc_promise (watchCalls ?s' ! k') = Pending \<or> wc_promise (watchCalls ?s' ! k') = Fulfilled"
    proof (cases "k' = ?k")
      case False
      with pf other [of k'] show ?thesis by simp
    next
      case True
      show ?thesis
      proof (cases "wc_promise (watchCalls s ! ?k) = Pending")
        case True
        with \<open>k' = ?k\<close> show ?thesis by simp
      next
        case False
        from same [OF False] pf \<open>k' = ?k\<close> show ?thesis by simp
      qed
    qed
    have c2: "map (\<lambda>j. bs_root (slots ?s' ! j)) (wc_backends ?w) = roots (options ?s')"
      if pf: "wc_promise (watchCalls ?s' ! k') = Pending \<or> wc_promise (watchCalls ?s' ! k') = Fulfilled"
    proof -
      from from_old [OF pf] c
      have "map (\<lambda>j. bs_root (slots s ! j)) (wc_backends ?w) = roots (options s)"
        by (auto simp: call_ok_def Let_def)
      then show ?thesis unfolding roots_same op .
    qed
    have c3: "(\<forall>j \<in> set (wc_backends ?w).
          bs_started (slots ?s' ! j) = Pending \<or> bs_started (slots ?s' ! j) = Fulfilled)
        \<and> (\<exists>j \<in> set (wc_backends ?w). bs_started (slots ?s' ! j) \<noteq> Fulfilled)"
      if p: "wc_promise (watchCalls ?s' ! k') = Pending"
    proof (cases "k' = ?k")
      case False
      with p other [of k'] have pw: "wc_promise ?w = Pending" by simp
      have "j \<noteq> i" if "j \<in> set (wc_backends ?w)" for j
        using idx that False by auto
      then have "slots ?s' ! j = slots s ! j" if "j \<in> set (wc_backends ?w)" for j
        using that unfolding sl by (metis nth_list_update_neq)
      with c pw show ?thesis by (simp add: call_ok_def Let_def)
    next
      case True
      have pw: "wc_promise (watchCalls s ! ?k) = Pending"
      proof (rule ccontr)
        assume np: "wc_promise (watchCalls s ! ?k) \<noteq> Pending"
        from same [OF np] p True np show False by simp
      qed
      from p True prom [OF pw]
      have fr: "first_rejection (map (\<lambda>j. bs_started ((slots s)[i := b'] ! j))
              (wc_backends (watchCalls s ! ?k))) = None"
        and nf: "\<not> (\<forall>j \<in> set (wc_backends (watchCalls s ! ?k)).
                 bs_started ((slots s)[i := b'] ! j) = Fulfilled)"
        by (auto split: option.splits if_splits)
      from fr nf True show ?thesis
        unfolding sl by (simp add: first_rejection_None)
    qed
    have c4: "\<forall>j \<in> set (wc_backends ?w). bs_ready (slots ?s' ! j)"
      if f: "wc_promise (watchCalls ?s' ! k') = Fulfilled"
    proof (cases "wc_promise ?w = Fulfilled")
      case True
      with c have "\<forall>j \<in> set (wc_backends ?w). bs_ready (slots s ! j)"
        by (simp add: call_ok_def Let_def)
      with idx show ?thesis unfolding sl by (simp add: ready)
    next
      case False
      with f other [of k'] have k'k: "k' = ?k" by metis
      have pw: "wc_promise (watchCalls s ! ?k) = Pending"
      proof (rule ccontr)
        assume np: "wc_promise (watchCalls s ! ?k) \<noteq> Pending"
        from same [OF np] f k'k False show False by simp
      qed
      from f k'k prom [OF pw]
      have "\<forall>j \<in> set (wc_backends (watchCalls s ! ?k)).
                 bs_started ((slots s)[i := b'] ! j) = Fulfilled"
        by (auto split: option.splits if_splits)
      with idx k'k show ?thesis
        unfolding sl by (auto intro: slot_ok_Fulfilled_ready slot)
    qed
    from c1 c2 c3 c4 show ?thesis
      unfolding call_ok_def Let_def bk [OF kl] by blast
  qed
  have part3: "fst x < length (slots ?s') \<and> bs_ready (slots ?s' ! fst x)"
    if "x \<in> set (forwarded ?s')" for x
  proof -
    from that ok have "fst x < length (slots s)" "bs_ready (slots s ! fst x)"
      by (auto simp: watch_ok_def)
    then show ?thesis unfolding sl by (simp add: ready)
  qed
  from part1 part2 part3 show ?thesis
    unfolding watch_ok_def by blast
qed


lemma watch_ok_onReady: "watch_ok s \<Longrightarrow> watch_ok (onReady i s)"
proof (cases "i < length (slots s) \<and> \<not> bs_ready (slots s ! i)")
  case False
  assume "watch_ok s"
  with False show ?thesis by (auto simp: onReady_def)
next
  case True
  assume ok: "watch_ok s"
  let ?b = "slots s ! i"
  let ?b' = "?b\<lparr> bs_rejectTimeout := clearTimeout (bs_rejectTimeout ?b), bs_ready := True,
      bs_started := resolve (bs_started ?b) \<rparr>"
  from ok True have "slot_ok ?b" by (simp add: watch_ok_def)
  with True have "slot_ok ?b'"
    by (cases "bs_rejectTimeout ?b") (simp_all add: slot_ok_def)
  from watch_ok_update_slot [OF ok _ this] True show ?thesis
    by (simp add: onReady_def Let_def)
qed

lemma watch_ok_onStartTimeout: "watch_ok s \<Longrightarrow> watch_ok (onStartTimeout i s)"
proof (cases "i < length (slots s) \<and> bs_rejectTimeout (slots s ! i) \<noteq> Cleared
    \<and> bs_rejectTimeout (slots s ! i) \<noteq> Fired")
  case False
  assume "watch_ok s"
  with False show ?thesis by (auto simp: onStartTimeout_def)
next
  case True
  assume ok: "watch_ok s"
  let ?b = "slots s ! i"
  let ?b' = "?b\<lparr> bs_rejectTimeout := Fired,
      bs_started := reject (JsError ''Error'' ''Failed to start watch mode.'') (bs_started ?b) \<rparr>"
  from ok True have "slot_ok ?b" by (simp add: watch_ok_def)
  with True have "slot_ok ?b'"
    by (cases "bs_rejectTimeout ?b") (simp_all add: slot_ok_def start_failed_def)
  from watch_ok_update_slot [OF ok _ this] True show ?thesis
    by (simp add: onStartTimeout_def Let_def)
qed

lemma watchCalls_watch:
  obtains P where
    "watchCalls (watch pf ctor s) = watchCalls s @
       [\<lparr> wc_backends = [length (slots s) ..< length (slots s) +
            length (fst (createWatcherBackends (length (watchCalls s)) ctor (roots (options s))))],
          wc_promise = P \<rparr>]"
    and "P = Pending \<or> P = Fulfilled \<Longrightarrow>
       map bs_root (fst (createWatcherBackends (length (watchCalls s)) ctor (roots (options s))))
         = roots (options s)"
    and "P = Pending \<Longrightarrow> roots (options s) \<noteq> []"
    and "P = Fulfilled \<Longrightarrow> roots (options s) = []"
proof (cases "snd (createWatcherBackends (length (watchCalls s)) ctor (roots (options s)))")
  case (Some e)
  from watchCalls_watch_failed [OF Some, of pf] show ?thesis
    by (rule that) simp_all
next
  case None
  have "length (map bs_root
      (fst (createWatcherBackends (length (watchCalls s)) ctor (roots (options s)))))
      = length (roots (options s))"
    by (simp only: cwb_roots [OF None])
  then have len: "length (fst (createWatcherBackends (length (watchCalls s)) ctor (roots (options s))))
      = length (roots (options s))" by simp
  show ?thesis
  proof (rule that)
    show "watchCalls (watch pf ctor s) = watchCalls s @
       [\<lparr> wc_backends = [length (slots s) ..< length (slots s) +
            length (fst (createWatcherBackends (length (watchCalls s)) ctor (roots (options s))))],
          wc_promise = (if roots (options s) = [] then Fulfilled else Pending) \<rparr>]"
      unfolding watchCalls_watch_ok [OF None] len ..
  qed (simp_all add: cwb_roots [OF None] split: if_splits)
qed

lemma watch_ok_watch:
  assumes ok: "watch_ok s"
  shows "watch_ok (watch pf ctor s)"
proof -
  let ?k = "length (watchCalls s)"
  let ?n = "length (slots s)"
  let ?bs = "fst (createWatcherBackends ?k ctor (roots (options s)))"
  let ?s' = "watch pf ctor s"
  obtain P where wc: "watchCalls ?s' = watchCalls s @
      [\<lparr> wc_backends = [?n ..< ?n + length ?bs], wc_promise = P \<rparr>]"
    and P1: "P = Pending \<or> P = Fulfilled \<Longrightarrow> map bs_root ?bs = roots (options s)"
    and P2: "P = Pending \<Longrightarrow> roots (options s) \<noteq> []"
    and P3: "P = Fulfilled \<Longrightarrow> roots (options s) = []"
    by (rule watchCalls_watch [of pf ctor s]) blast
  have sl: "slots ?s' = slots s @ ?bs" by (rule slots_watch)
  have new: "bs_call b = ?k \<and> bs_rejectTimeout b = Armed MAX_WAIT_TIME \<and> \<not> bs_ready b
      \<and> bs_started b = Pending" if "b \<in> set ?bs" for b
    using cwb_slots [OF that] .
  have part1: "slot_ok (slots ?s' ! j) \<and> bs_call (slots ?s' ! j) < length (watchCalls ?s')
      \<and> j \<in> set (wc_backends (watchCalls ?s' ! bs_call (slots ?s' ! j)))"
    if j: "j < length (slots ?s')" for j
  proof (cases "j < ?n")
    case True
    with ok have "slot_ok (slots s ! j)" "bs_call (slots s ! j) < ?k"
      "j \<in> set (wc_backends (watchCalls s ! bs_call (slots s ! j)))"
      by (auto simp: watch_ok_def)
    with True show ?thesis unfolding sl wc by (simp add: nth_append)
  next
    case False
    with j have "j - ?n < length ?bs" unfolding sl by simp
    then have "?bs ! (j - ?n) \<in> set ?bs" by simp
    from new [OF this] False j show ?thesis
      unfolding sl wc by (simp add: nth_append slot_ok_def)
  qed
  have part2: "call_ok ?s' k'" if k': "k' < length (watchCalls ?s')" for k'
  proof (cases "k' < ?k")
    case True
    with ok have c: "call_ok s k'" by (simp add: watch_ok_def)
    then have idx: "\<forall>j \<in> set (wc_backends (watchCalls s ! k')). j < ?n"
      by (simp add: call_ok_def Let_def)
    then have same: "slots ?s' ! j = slots s ! j" if "j \<in> set (wc_backends (watchCalls s ! k'))" for j
      using that unfolding sl by (simp add: nth_append)
    have w: "watchCalls ?s' ! k' = watchCalls s ! k'"
      using True unfolding wc by (simp add: nth_append)
    have m: "map (\<lambda>j. bs_root (slots ?s' ! j)) (wc_backends (watchCalls s ! k')) =
        map (\<lambda>j. bs_root (slots s ! j)) (wc_backends (watchCalls s ! k'))"
      using same by simp
    from c show ?thesis
      unfolding call_ok_def Let_def w m
      using same idx by (auto simp: sl)
  next
    case False
    with k' have kk: "k' = ?k" unfolding wc by simp
    have w: "watchCalls ?s' ! k' = \<lparr> wc_backends = [?n ..< ?n + length ?bs], wc_promise = P \<rparr>"
      unfolding wc kk by simp
    have at: "slots ?s' ! j = ?bs ! (j - ?n)" "?bs ! (j - ?n) \<in> set ?bs"
      if "j \<in> set [?n ..< ?n + length ?bs]" for j
      using that unfolding sl by (auto simp add: nth_append intro!: nth_mem)
    have c1: "\<forall>j \<in> set [?n ..< ?n + length ?bs]. j < length (slots ?s') \<and> bs_call (slots ?s' ! j) = k'"
    proof
      fix j assume j: "j \<in> set [?n ..< ?n + length ?bs]"
      from new [OF at(2) [OF j]] at(1) [OF j] j show "j < length (slots ?s') \<and> bs_call (slots ?s' ! j) = k'"
        by (simp add: kk sl)
    qed
    have st: "\<forall>j \<in> set [?n ..< ?n + length ?bs]. bs_started (slots ?s' ! j) = Pending"
    proof
      fix j assume j: "j \<in> set [?n ..< ?n + length ?bs]"
      from new [OF at(2) [OF j]] at(1) [OF j] show "bs_started (slots ?s' ! j) = Pending" by simp
    qed
    have c2: "map (\<lambda>j. bs_root (slots ?s' ! j)) [?n ..< ?n + length ?bs] = roots (options ?s')"
      if "P = Pending \<or> P = Fulfilled"
      using P1 [OF that] unfolding sl by (simp add: map_nth_append_upt)
    have c3: "\<exists>j \<in> set [?n ..< ?n + length ?bs]. bs_started (slots ?s' ! j) \<noteq> Fulfilled"
      if "P = Pending"
    proof -
      from P1 P2 that have "length ?bs \<noteq> 0" by (metis length_0_conv map_is_Nil_conv)
      then have "?n \<in> set [?n ..< ?n + length ?bs]" by simp
      with st show ?thesis by (metis promise.distinct(1))
    qed
    have c4: "\<forall>j \<in> set [?n ..< ?n + length ?bs]. bs_ready (slots ?s' ! j)" if "P = Fulfilled"
    proof -
      from P1 P3 that have "length ?bs = 0" by (metis length_0_conv map_is_Nil_conv)
      then show ?thesis by simp
    qed
    from c1 c2 c3 c4 st show ?thesis
      unfolding call_ok_def Let_def w by auto
  qed
  have part3: "fst x < length (slots ?s') \<and> bs_ready (slots ?s' ! fst x)"
    if "x \<in> set (forwarded ?s')" for x
  proof -
    from that ok have "fst x < ?n" "bs_ready (slots s ! fst x)"
      by (auto simp: watch_ok_def)
    then show ?thesis unfolding sl by (simp add: nth_append)
  qed
  from part1 part2 part3 show ?thesis
    unfolding watch_ok_def by blast
qed


lemma frame_checkHealth [simp]:
  "options (checkHealth pf timeout now s) = options s"
  "backends (checkHealth pf timeout now s) = backends s"
  "instanceId (checkHealth pf timeout now s) = instanceId s"
  "activeWatcher (checkHealth pf timeout now s) = activeWatcher s"
  "slots (checkHealth pf timeout now s) = slots s"
  "watchCalls (checkHealth pf timeout now s) = watchCalls s"
  "forwarded (checkHealth pf timeout now s) = forwarded s"
  by (simp_all add: checkHealth_def Let_def)

lemma frame_onAll [simp]:
  "options (onAll pf i ch now s) = options s"
  "backends (onAll pf i ch now s) = backends s"
  "instanceId (onAll pf i ch now s) = instanceId s"
  "nextHealthCheckId (onAll pf i ch now s) = nextHealthCheckId s"
  "activeWatcher (onAll pf i ch now s) = activeWatcher s"
  "slots (onAll pf i ch now s) = slots s"
  "watchCalls (onAll pf i ch now s) = watchCalls s"
  by (simp_all add: onAll_def Let_def)

lemma forwarded_onAll:
  "forwarded (onAll pf i ch now s) = forwarded s \<or> forwarded (onAll pf i ch now s) = forwarded s @ [(i, ch)]"
  by (simp add: onAll_def Let_def)

lemma watch_ok_frame:
  assumes "watch_ok s" and "slots s' = slots s" and "watchCalls s' = watchCalls s"
    and "options s' = options s"
    and "\<forall>x \<in> set (forwarded s'). x \<in> set (forwarded s) \<or> (fst x < length (slots s) \<and> bs_ready (slots s ! fst x))"
  shows "watch_ok s'"
  using assms unfolding watch_ok_def call_ok_def Let_def by auto

lemma watch_ok_step: "watch_ok s \<Longrightarrow> watch_ok (step pf s t)"
proof (cases t)
  case (Emit i ch now)
  assume ok: "watch_ok s"
  show ?thesis
  proof (cases "i < length (slots s) \<and> bs_ready (slots s ! i)")
    case True
    from forwarded_onAll [of pf i ch now s] True
    have "\<forall>x \<in> set (forwarded (onAll pf i ch now s)).
        x \<in> set (forwarded s) \<or> (fst x < length (slots s) \<and> bs_ready (slots s ! fst x))"
      by auto
    with ok True Emit show ?thesis
      by (auto intro!: watch_ok_frame [OF ok])
  next
    case False
    with ok Emit show ?thesis by auto
  qed
qed (auto simp: watch_ok_watch watch_ok_onReady watch_ok_onStartTimeout intro: watch_ok_frame)

lemma watch_ok_run: "watch_ok s \<Longrightarrow> watch_ok (run pf s ts)"
  by (induction ts arbitrary: s) (simp_all add: watch_ok_step)

lemma watch_ok_new: "watch_ok (Watcher_new opts inst)"
  by (simp add: watch_ok_def Watcher_new_def)

lemma options_step [simp]: "options (step pf s t) = options s"
  by (cases t) simp_all

lemma options_run [simp]: "options (run pf s ts) = options s"
  by (induction ts arbitrary: s) simp_all

lemma length_watchCalls_step: "length (watchCalls s) \<le> length (watchCalls (step pf s t))"
proof (cases t)
  case (Watch ctor)
  obtain P where "watchCalls (watch pf ctor s) = watchCalls s @
       [\<lparr> wc_backends = [length (slots s) ..< length (slots s) +
            length (fst (createWatcherBackends (length (watchCalls s)) ctor (roots (options s))))],
          wc_promise = P \<rparr>]"
    by (rule watchCalls_watch [of pf ctor s])
  with Watch show ?thesis by simp
qed simp_all

lemma rejected_step:
  assumes "k < length (watchCalls s)" and "wc_promise (watchCalls s ! k) = Rejected e"
  shows "wc_promise (watchCalls (step pf s t) ! k) = Rejected e"
proof (cases t)
  case (Watch ctor)
  obtain P where "watchCalls (watch pf ctor s) = watchCalls s @
       [\<lparr> wc_backends = [length (slots s) ..< length (slots s) +
            length (fst (createWatcherBackends (length (watchCalls s)) ctor (roots (options s))))],
          wc_promise = P \<rparr>]"
    by (rule watchCalls_watch [of pf ctor s])
  with Watch assms show ?thesis by (simp add: nth_append)
next
  case (Ready i)
  show ?thesis
  proof (cases "bs_call (slots s ! i) = k")
    case True
    with assms Ready show ?thesis
      by (simp add: onReady_def Let_def settle_watch_not_pending)
  next
    case False
    with assms Ready show ?thesis
      by (simp add: onReady_def Let_def settle_watch_other)
  qed
next
  case (StartTimeout i)
  show ?thesis
  proof (cases "bs_call (slots s ! i) = k")
    case True
    with assms StartTimeout show ?thesis
      by (simp add: onStartTimeout_def Let_def settle_watch_not_pending)
  next
    case False
    with assms StartTimeout show ?thesis
      by (simp add: onStartTimeout_def Let_def settle_watch_other)
  qed
qed (use assms in simp_all)

lemma rejected_run:
  assumes "k < length (watchCalls s)" and "wc_promise (watchCalls s ! k) = Rejected e"
  shows "wc_promise (watchCalls (run pf s ts) ! k) = Rejected e"
  using assms
proof (induction ts arbitrary: s)
  case Nil
  then show ?case by simp
next
  case (Cons t ts)
  from Cons.prems(1) length_watchCalls_step [of s pf t]
  have "k < length (watchCalls (step pf s t))" by simp
  from Cons.IH [OF this rejected_step [OF Cons.prems]] show ?case by simp
qed

lemma timeout_rejects:
  assumes ok: "watch_ok s" and k: "k < length (watchCalls s)"
    and p: "wc_promise (watchCalls s ! k) = Pending"
    and i: "i \<in> set (wc_backends (watchCalls s ! k))" and nr: "\<not> bs_ready (slots s ! i)"
  shows "bs_rejectTimeout (slots s ! i) = Armed MAX_WAIT_TIME
       \<and> wc_promise (watchCalls (onStartTimeout i s) ! k) = Rejected start_failed"
proof -
  from ok k have c: "call_ok s k" by (simp add: watch_ok_def)
  with i have il: "i < length (slots s)" and ck: "bs_call (slots s ! i) = k"
    by (auto simp: call_ok_def Let_def)
  from c p have st: "\<forall>j \<in> set (wc_backends (watchCalls s ! k)).
      bs_started (slots s ! j) = Pending \<or> bs_started (slots s ! j) = Fulfilled"
    by (simp add: call_ok_def Let_def)
  from ok il have so: "slot_ok (slots s ! i)" by (simp add: watch_ok_def)
  from st i have "bs_started (slots s ! i) \<noteq> Rejected start_failed" by auto
  with so nr have armed: "bs_rejectTimeout (slots s ! i) = Armed MAX_WAIT_TIME"
    and pend: "bs_started (slots s ! i) = Pending"
    by (cases "bs_rejectTimeout (slots s ! i)"; simp add: slot_ok_def)+
  let ?b' = "(slots s ! i)\<lparr> bs_rejectTimeout := Fired,
      bs_started := reject (JsError ''Error'' ''Failed to start watch mode.'') (bs_started (slots s ! i)) \<rparr>"
  let ?s1 = "s\<lparr> slots := (slots s)[i := ?b'] \<rparr>"
  have step: "onStartTimeout i s = settle_watch k ?s1"
    using il armed ck by (simp add: onStartTimeout_def Let_def)
  have "first_rejection (map (\<lambda>j. bs_started (slots ?s1 ! j)) (wc_backends (watchCalls ?s1 ! k)))
      = Some start_failed"
  proof (rule first_rejection_Some)
    show "\<forall>j \<in> set (wc_backends (watchCalls ?s1 ! k)).
        bs_started (slots ?s1 ! j) = Pending \<or> bs_started (slots ?s1 ! j) = Fulfilled
        \<or> bs_started (slots ?s1 ! j) = Rejected start_failed"
      using st il pend by (auto simp: nth_list_update start_failed_def)
    show "\<exists>j \<in> set (wc_backends (watchCalls ?s1 ! k)). bs_started (slots ?s1 ! j) = Rejected start_failed"
      using i il pend by (auto simp: start_failed_def intro!: bexI [of _ i])
  qed
  with settle_watch_promise [of k ?s1] k p
  have "wc_promise (watchCalls (settle_watch k ?s1) ! k) = Rejected start_failed"
    by simp
  with armed step show ?thesis by simp
qed

subsection \<open>C4: watch resolves when every root is ready, and rejects as a whole\<close>

text \<open>
  Claim C4, as amended. In every state reached from a new Watcher, for every call of
  \<open>watch\<close>: if its promise is fulfilled, it made one backend for each configured root
  and each of them has fired \<open>ready\<close>; while it is pending, each of its backends that has
  not fired \<open>ready\<close> has its timer armed with 240000 ms, and that timer firing rejects
  the promise with \<open>Failed to start watch mode.\<close>; a rejected promise stays rejected
  whatever happens next; a constructor that throws for some root rejects the call at once
  with that error; and every change given to \<open>onChange\<close> came from a backend that had
  fired \<open>ready\<close>. Nothing is said about a rejected call delivering no events: the
  backends that became ready keep their listener.
\<close>

theorem watch_is_all_or_nothing:
  assumes "s = run pf (Watcher_new opts inst) ts" and "k < length (watchCalls s)"
  shows "(wc_promise (watchCalls s ! k) = Fulfilled \<longrightarrow>
            map (\<lambda>i. bs_root (slots s ! i)) (wc_backends (watchCalls s ! k)) = roots opts
            \<and> (\<forall>i \<in> set (wc_backends (watchCalls s ! k)). bs_ready (slots s ! i)))
       \<and> (wc_promise (watchCalls s ! k) = Pending \<longrightarrow>
            map (\<lambda>i. bs_root (slots s ! i)) (wc_backends (watchCalls s ! k)) = roots opts
            \<and> (\<forall>i \<in> set (wc_backends (watchCalls s ! k)). \<not> bs_ready (slots s ! i) \<longrightarrow>
                  bs_rejectTimeout (slots s ! i) = Armed 240000
                  \<and> wc_promise (watchCalls (step pf s (StartTimeout i)) ! k) =
                      Rejected (JsError ''Error'' ''Failed to start watch mode.'')))
       \<and> (\<forall>e. wc_promise (watchCalls s ! k) = Rejected e \<longrightarrow>
                wc_promise (watchCalls (run pf s us) ! k) = Rejected e)
       \<and> (\<forall>j e. j < length (roots opts) \<longrightarrow> j < length ctor \<longrightarrow> ctor ! j = Some e \<longrightarrow>
                (\<forall>j' < j. ctor ! j' = None) \<longrightarrow>
                wc_promise (watchCalls (step pf s (Watch ctor)) ! length (watchCalls s)) = Rejected e)
       \<and> (\<forall>x \<in> set (forwarded s). fst x < length (slots s) \<and> bs_ready (slots s ! fst x))"
proof -
  have ok: "watch_ok s" unfolding assms(1) by (intro watch_ok_run watch_ok_new)
  have op: "options s = opts" unfolding assms(1) by (simp add: Watcher_new_def)
  from ok assms(2) have c: "call_ok s k" by (simp add: watch_ok_def)
  have 1: "wc_promise (watchCalls s ! k) = Fulfilled \<longrightarrow>
            map (\<lambda>i. bs_root (slots s ! i)) (wc_backends (watchCalls s ! k)) = roots opts
            \<and> (\<forall>i \<in> set (wc_backends (watchCalls s ! k)). bs_ready (slots s ! i))"
    using c op by (simp add: call_ok_def Let_def)
  have 2: "wc_promise (watchCalls s ! k) = Pending \<longrightarrow>
            map (\<lambda>i. bs_root (slots s ! i)) (wc_backends (watchCalls s ! k)) = roots opts
            \<and> (\<forall>i \<in> set (wc_backends (watchCalls s ! k)). \<not> bs_ready (slots s ! i) \<longrightarrow>
                  bs_rejectTimeout (slots s ! i) = Armed 240000
                  \<and> wc_promise (watchCalls (step pf s (StartTimeout i)) ! k) =
                      Rejected (JsError ''Error'' ''Failed to start watch mode.''))"
    using c op timeout_rejects [OF ok assms(2)]
    by (simp add: call_ok_def Let_def MAX_WAIT_TIME_def start_failed_def)
  have 3: "\<forall>e. wc_promise (watchCalls s ! k) = Rejected e \<longrightarrow>
                wc_promise (watchCalls (run pf s us) ! k) = Rejected e"
    using rejected_run [OF assms(2)] by blast
  have 4: "\<forall>j e. j < length (roots opts) \<longrightarrow> j < length ctor \<longrightarrow> ctor ! j = Some e \<longrightarrow>
                (\<forall>j' < j. ctor ! j' = None) \<longrightarrow>
                wc_promise (watchCalls (step pf s (Watch ctor)) ! length (watchCalls s)) = Rejected e"
  proof (intro allI impI)
    fix j e
    assume "j < length (roots opts)" "j < length ctor" "ctor ! j = Some e" "\<forall>j' < j. ctor ! j' = None"
    then have "snd (createWatcherBackends (length (watchCalls s)) ctor (roots (options s))) = Some e"
      unfolding op by (rule cwb_failure)
    from watchCalls_watch_failed [OF this, of pf]
    show "wc_promise (watchCalls (step pf s (Watch ctor)) ! length (watchCalls s)) = Rejected e"
      by simp
  qed
  have 5: "\<forall>x \<in> set (forwarded s). fst x < length (slots s) \<and> bs_ready (slots s ! fst x)"
    using ok by (simp add: watch_ok_def)
  from 1 2 3 4 5 show ?thesis by blast
qed

theorem watch_is_all_or_nothing_witness:
  "bs_rejectTimeout (slots half_ready ! 1) = Armed 240000
   \<and> wc_promise (watchCalls (step posix half_ready (StartTimeout 1)) ! 0) =
       Rejected (JsError ''Error'' ''Failed to start watch mode.'')
   \<and> wc_promise (watchCalls (step posix half_ready (Watch [None, Some unavailable])) ! 1) =
       Rejected unavailable
   \<and> bs_ready (slots ready_watcher ! 0)
   \<and> wc_promise (watchCalls (run posix still_delivering [Ready 1]) ! 0) =
       Rejected (JsError ''Error'' ''Failed to start watch mode.'')
   \<and> bs_ready (slots still_delivering ! 0)"
proof -
  have k: "0 < length (watchCalls half_ready)" by (simp add: half_ready_eq)
  have p: "wc_promise (watchCalls half_ready ! 0) = Pending" by (simp add: half_ready_eq)
  have i: "1 \<in> set (wc_backends (watchCalls half_ready ! 0))" by (simp add: half_ready_eq)
  have nr: "\<not> bs_ready (slots half_ready ! 1)" by (simp add: half_ready_eq)
  have l: "length (watchCalls half_ready) = 1" by (simp add: half_ready_eq)
  have r: "(1::nat) < length (roots two_roots)" by (simp add: two_roots_def)
  have c: "(1::nat) < length [None, Some unavailable]" "[None, Some unavailable] ! 1 = Some unavailable"
    "\<forall>j' < (1::nat). [None, Some unavailable] ! j' = None"
    by simp_all
  note T = watch_is_all_or_nothing [OF half_ready_def k, where ctor = "[None, Some unavailable]"]
  from T [THEN conjunct2, THEN conjunct1] p
  have "\<forall>i \<in> set (wc_backends (watchCalls half_ready ! 0)). \<not> bs_ready (slots half_ready ! i) \<longrightarrow>
      bs_rejectTimeout (slots half_ready ! i) = Armed 240000
      \<and> wc_promise (watchCalls (step posix half_ready (StartTimeout i)) ! 0) =
          Rejected (JsError ''Error'' ''Failed to start watch mode.'')"
    by (rule conjunct2 [OF mp])
  from bspec [OF this i] nr
  have a: "bs_rejectTimeout (slots half_ready ! 1) = Armed 240000
      \<and> wc_promise (watchCalls (step posix half_ready (StartTimeout 1)) ! 0) =
          Rejected (JsError ''Error'' ''Failed to start watch mode.'')"
    by (rule mp)
  from T [THEN conjunct2, THEN conjunct2, THEN conjunct2, THEN conjunct1, rule_format,
      of 1 unavailable] r c
  have b: "wc_promise (watchCalls (step posix half_ready (Watch [None, Some unavailable])) !
      length (watchCalls half_ready)) = Rejected unavailable"
    by blast
  have k1: "0 < length (watchCalls ready_watcher)"
    and f1: "wc_promise (watchCalls ready_watcher ! 0) = Fulfilled"
    and i1: "0 \<in> set (wc_backends (watchCalls ready_watcher ! 0))"
    by (simp_all add: ready_watcher_eq)
  from watch_is_all_or_nothing [OF ready_watcher_reached k1, THEN conjunct1] f1
  have "\<forall>i \<in> set (wc_backends (watchCalls ready_watcher ! 0)). bs_ready (slots ready_watcher ! i)"
    by (rule conjunct2 [OF mp])
  from bspec [OF this i1] have d: "bs_ready (slots ready_watcher ! 0)" .
  have k2: "0 < length (watchCalls still_delivering)" by (simp add: still_delivering_facts)
  note U = watch_is_all_or_nothing [OF still_delivering_reached k2, where us = "[Ready 1]"]
  from U [THEN conjunct2, THEN conjunct2, THEN conjunct1, rule_format] still_delivering_facts(2)
  have e: "wc_promise (watchCalls (run posix still_delivering [Ready 1]) ! 0) =
      Rejected (JsError ''Error'' ''Failed to start watch mode.'')" .
  have "(0, source_changed) \<in> set (forwarded still_delivering)"
    by (simp add: still_delivering_facts)
  from bspec [OF U [THEN conjunct2, THEN conjunct2, THEN conjunct2, THEN conjunct2] this]
  have f: "bs_ready (slots still_delivering ! 0)" by simp
  from a b d e f show ?thesis unfolding l by simp
qed

text \<open>
  The claim as stated fails: with two roots, the first backend fires \<open>ready\<close>, the timer
  of the second fires, and \<open>watch\<close> has rejected; a change emitted by the first backend
  is still given to \<open>onChange\<close>.
\<close>

theorem rejected_watch_still_delivers:
  "still_delivering = run posix (Watcher_new two_roots 0)
      [Watch [], Ready 0, StartTimeout 1, Emit 0 source_changed 5]
   \<and> wc_promise (watchCalls still_delivering ! 0) =
       Rejected (JsError ''Error'' ''Failed to start watch mode.'')
   \<and> forwarded still_delivering = [(0, source_changed)]"
  using still_delivering_reached still_delivering_facts by simp

lemma digit_char_inj:
  assumes "a < 10" "b < 10" "digit_char a = digit_char b"
  shows "a = b"
proof -
  have d: "distinct ''0123456789''" by simp
  have l: "length ''0123456789'' = 10" by simp
  from assms show ?thesis
    unfolding digit_char_def using nth_eq_iff_index_eq [OF d, of a b] l by simp
qed

lemma string_of_nat_nonempty: "string_of_nat n \<noteq> []"
  by (subst string_of_nat.simps) simp

lemma string_of_nat_inj: "string_of_nat n = string_of_nat m \<Longrightarrow> n = m"
proof (induction n arbitrary: m rule: less_induct)
  case (less n)
  show ?case
  proof (cases "n < 10")
    case True
    show ?thesis
    proof (cases "m < 10")
      case m: True
      from less.prems True m have "digit_char n = digit_char m"
        by (simp add: string_of_nat.simps [of n] string_of_nat.simps [of m])
      with True m show ?thesis by (rule digit_char_inj)
    next
      case False
      with less.prems True string_of_nat_nonempty [of "m div 10"] show ?thesis
        by (simp add: string_of_nat.simps [of n] string_of_nat.simps [of m])
    qed
  next
    case False
    show ?thesis
    proof (cases "m < 10")
      case True
      with less.prems False string_of_nat_nonempty [of "n div 10"] show ?thesis
        by (simp add: string_of_nat.simps [of n] string_of_nat.simps [of m])
    next
      case m: False
      from less.prems False m
      have eq: "string_of_nat (n div 10) = string_of_nat (m div 10)"
        and dg: "digit_char (n mod 10) = digit_char (m mod 10)"
        by (simp_all add: string_of_nat.simps [of n] string_of_nat.simps [of m])
      from False have "n div 10 < n" by simp
      from less.IH [OF this eq] have q: "n div 10 = m div 10" .
      have "n mod 10 = m mod 10" using dg by (intro digit_char_inj) simp_all
      with q show ?thesis by (metis div_mult_mod_eq)
    qed
  qed
qed

lemma cookie_basename_inj:
  "cookie_basename pf s a = cookie_basename pf s b \<longleftrightarrow> a = b"
  by (auto simp: cookie_basename_def dest: string_of_nat_inj)

lemma cookie_basename_prefix:
  "startsWith (cookie_basename pf s a) (healthCheckFilePrefix (options s))"
  by (simp add: cookie_basename_def startsWith_def)

lemma cookie_basename_cong:
  "options s' = options s \<Longrightarrow> instanceId s' = instanceId s \<Longrightarrow>
   cookie_basename pf s' = cookie_basename pf s"
  by (simp add: cookie_basename_def fun_eq_iff)

lemma instanceId_step [simp]: "instanceId (step pf s t) = instanceId s"
  by (cases t) simp_all

lemma instanceId_run [simp]: "instanceId (run pf s ts) = instanceId s"
  by (induction ts arbitrary: s) simp_all

lemma checks_step_cases:
  obtains (same) "checks (step pf s t) = checks s"
      "pendingHealthChecks (step pf s t) = pendingHealthChecks s"
      "nextHealthCheckId (step pf s t) = nextHealthCheckId s"
      "\<forall>timeout now. t \<noteq> CheckHealth timeout now"
  | (call) timeout now where "t = CheckHealth timeout now"
  | (react) c f where "c < length (checks s)" "step pf s t = react c f s"
      "\<And>h. hc_id (f h) = hc_id h" "\<And>h. hc_basename (f h) = hc_basename h"
      "\<And>h. returned (f h) = returned h"
      "(\<exists>pr. t = Timeout c pr) \<or> t = WriteDone c \<or> (\<exists>e. t = WriteFailed c e)
       \<or> (\<exists>i ch now. t = Emit i ch now
              \<and> pendingHealthChecks s (path_basename pf (relativePath ch)) = Some c)"
proof (cases t)
  case (Watch ctor)
  then show ?thesis by (intro same) simp_all
next
  case (Ready i)
  then show ?thesis by (intro same) simp_all
next
  case (StartTimeout i)
  then show ?thesis by (intro same) simp_all
next
  case (CheckHealth timeout now)
  then show ?thesis by (rule call)
next
  case (Timeout c pr)
  show ?thesis
  proof (cases "c < length (checks s) \<and> \<not> timeoutDone (checks s ! c)")
    case True
    with Timeout show ?thesis
      by (intro react [of c "\<lambda>h. h\<lparr> timeoutDone := True,
            result := (if result h = None
                       then Some (HC_timeout (hc_timeout h) (hc_watcher h)
                                    (if backends s = [] then None else pr))
                       else result h) \<rparr>"])
         (simp_all add: onTimeout_def)
  next
    case False
    with Timeout show ?thesis by (intro same) (auto simp: onTimeout_def)
  qed
next
  case (WriteDone c)
  show ?thesis
  proof (cases "c < length (checks s) \<and> \<not> creationDone (checks s ! c)")
    case True
    with WriteDone show ?thesis
      by (intro react [of c "\<lambda>h. h\<lparr> creationDone := True \<rparr>"]) (simp_all add: onWriteDone_def)
  next
    case False
    with WriteDone show ?thesis by (intro same) (auto simp: onWriteDone_def)
  qed
next
  case (WriteFailed c e)
  show ?thesis
  proof (cases "c < length (checks s) \<and> \<not> creationDone (checks s ! c)")
    case True
    with WriteFailed show ?thesis
      by (intro react [of c "\<lambda>h. h\<lparr> creationDone := True,
            result := (if result h = None
                       then Some (HC_error (hc_timeout h) e (hc_watcher h))
                       else result h) \<rparr>"])
         (simp_all add: onWriteFailed_def)
  next
    case False
    with WriteFailed show ?thesis by (intro same) (auto simp: onWriteFailed_def)
  qed
next
  case (Emit i ch now)
  let ?b = "path_basename pf (relativePath ch)"
  show ?thesis
  proof (cases "i < length (slots s) \<and> bs_ready (slots s ! i)
      \<and> startsWith ?b (healthCheckFilePrefix (options s)) \<and> event ch \<noteq> DELETE_EVENT")
    case False
    with Emit show ?thesis
      by (intro same) (cases "event ch"; auto simp: onAll_def Let_def)+
  next
    case True
    then have ev: "event ch = ADD_EVENT \<or> event ch = CHANGE_EVENT" by (cases "event ch") auto
    show ?thesis
    proof (cases "pendingHealthChecks s ?b")
      case None
      with Emit True ev show ?thesis
        by (intro same) (auto simp: onAll_def Let_def handleHealthCheckObservation_def)
    next
      case (Some c)
      show ?thesis
      proof (cases "c < length (checks s) \<and> \<not> observationDone (checks s ! c)")
        case False
        with Emit True ev Some show ?thesis
          by (intro same)
             (auto simp: onAll_def Let_def handleHealthCheckObservation_def resolveHealthCheck_def)
      next
        case c: True
        with Emit True ev Some show ?thesis
          by (intro react [of c "\<lambda>h. h\<lparr> observationDone := True,
                result := (if result h = None
                           then Some (HC_success (hc_timeout h) (now - hc_startTime h)
                                        (hc_watcher h))
                           else result h) \<rparr>"])
             (auto simp: onAll_def Let_def handleHealthCheckObservation_def resolveHealthCheck_def)
      qed
    qed
  qed
qed


lemma names_react:
  assumes "c < length (checks s)" and "\<And>h. g (f h) = g h" and "\<And>h. g (finish h) = g h"
  shows "map g (checks (react c f s)) = map g (checks s)"
proof -
  have "map g ((checks s)[c := finish (f (checks s ! c))]) = (map g (checks s))[c := g (checks s ! c)]"
    by (simp add: map_update assms(2,3))
  also have "\<dots> = map g (checks s)"
    using assms(1) by (metis list_update_id map_update)
  finally show ?thesis by (simp add: checks_react assms(1))
qed

lemma names_step:
  "\<exists>ext. map hc_basename (checks (step pf s t)) = map hc_basename (checks s) @ ext"
proof (cases pf s t rule: checks_step_cases)
  case same
  then show ?thesis by simp
next
  case (call timeout now)
  then show ?thesis by (simp add: checkHealth_def Let_def)
next
  case (react c f)
  then show ?thesis by (simp add: names_react)
qed

lemma cookies_ok_step: "cookies_ok pf s \<Longrightarrow> cookies_ok pf (step pf s t)"
proof (cases pf s t rule: checks_step_cases)
  case same
  assume "cookies_ok pf s"
  with same show ?thesis
    by (simp add: cookies_ok_def cookie_basename_cong [of "step pf s t" s])
next
  case (call timeout now)
  assume "cookies_ok pf s"
  with call show ?thesis
    by (auto simp: cookies_ok_def checkHealth_def Let_def nth_append cookie_basename_def)
next
  case (react c f)
  assume "cookies_ok pf s"
  with react show ?thesis
    by (auto simp: cookies_ok_def checks_react nth_list_update cookie_basename_def)
qed

lemma ids_ok_step: "ids_ok s \<Longrightarrow> ids_ok (step pf s t)"
proof (cases pf s t rule: checks_step_cases)
  case same
  assume "ids_ok s"
  with same show ?thesis by (simp add: ids_ok_def)
next
  case (call timeout now)
  assume "ids_ok s"
  with call show ?thesis
    by (auto simp: ids_ok_def checkHealth_def Let_def nth_append mod_Suc less_Suc_eq)
next
  case (react c f)
  assume "ids_ok s"
  with react show ?thesis
    by (auto simp: ids_ok_def checks_react nth_list_update)
qed

lemma cookies_ok_run: "cookies_ok pf s \<Longrightarrow> cookies_ok pf (run pf s ts)"
  by (induction ts arbitrary: s) (simp_all add: cookies_ok_step)

lemma ids_ok_run: "ids_ok s \<Longrightarrow> ids_ok (run pf s ts)"
  by (induction ts arbitrary: s) (simp_all add: ids_ok_step)

lemma cookies_ok_new: "cookies_ok pf (Watcher_new opts inst)"
  by (simp add: cookies_ok_def Watcher_new_def)

lemma ids_ok_new: "ids_ok (Watcher_new opts inst)"
  by (simp add: ids_ok_def Watcher_new_def)

lemma same_basename_iff:
  assumes "cookies_ok pf s" and "ids_ok s" and "c < length (checks s)" and "c' < length (checks s)"
  shows "hc_basename (checks s ! c) = hc_basename (checks s ! c') \<longleftrightarrow>
         c mod (MAX_SAFE_INTEGER + 1) = c' mod (MAX_SAFE_INTEGER + 1)"
  using assms by (simp add: cookies_ok_def ids_ok_def cookie_basename_inj)

lemma two_to_53: "MAX_SAFE_INTEGER + 1 = 2 ^ 53"
  by (simp add: MAX_SAFE_INTEGER_def)

lemma registered_names:
  assumes "registered s c" and "registered s c'" and "c \<noteq> c'"
  shows "hc_basename (checks s ! c) \<noteq> hc_basename (checks s ! c')"
  using assms by (auto simp: registered_def)

lemma apart_mod:
  fixes c c' m :: nat
  assumes "c < c'" and "c' < c + m"
  shows "c mod m \<noteq> c' mod m"
proof
  assume "c mod m = c' mod m"
  with assms(1) have "m dvd c' - c"
    by (metis mod_eq_dvd_iff_nat less_imp_le)
  moreover from assms have "0 < c' - c" "c' - c < m" by simp_all
  ultimately show False by (simp add: nat_dvd_not_less)
qed

lemma next_id:
  assumes "ids_ok s" and "Suc c < length (checks s)"
  shows "hc_id (checks s ! Suc c) =
         (if hc_id (checks s ! c) = MAX_SAFE_INTEGER then 0 else hc_id (checks s ! c) + 1)"
proof -
  from assms have a: "hc_id (checks s ! Suc c) = Suc c mod (MAX_SAFE_INTEGER + 1)"
    and b: "hc_id (checks s ! c) = c mod (MAX_SAFE_INTEGER + 1)"
    by (simp_all add: ids_ok_def)
  show ?thesis unfolding a b by (simp add: mod_Suc)
qed

lemma check_ok_nth: "health_ok s \<Longrightarrow> c < length (checks s) \<Longrightarrow> check_ok (checks s ! c)"
  by (simp add: health_ok_def list_all_nth)

lemma never_rejects:
  assumes "health_ok s" and "c < length (checks s)"
  shows "returned (checks s ! c) \<noteq> Some (Inl e)"
  using check_ok_nth [OF assms] by (auto simp: check_ok_def)

subsection \<open>C8: the health-check id wraps to zero\<close>



lemma react_other:
  assumes "c' < length (checks s)" and "c \<noteq> c'"
    and "hc_basename (f (checks s ! c')) \<noteq> hc_basename (checks s ! c)"
  shows "checks (react c' f s) ! c = checks s ! c"
    and "pendingHealthChecks (react c' f s) (hc_basename (checks s ! c)) =
         pendingHealthChecks s (hc_basename (checks s ! c))"
  using assms by (simp_all add: checks_react pending_react)

lemma unique_name_step:
  assumes "c < length (checks s)" and "unique_name (step pf s t) c"
  shows "unique_name s c"
proof -
  from names_step [of pf s t] obtain ext where
    e: "map hc_basename (checks (step pf s t)) = map hc_basename (checks s) @ ext" ..
  have same: "hc_basename (checks (step pf s t) ! i) = hc_basename (checks s ! i)"
    if "i < length (checks s)" for i
  proof -
    from that length_checks_step [of s pf t] have "i < length (checks (step pf s t))" by simp
    then have "hc_basename (checks (step pf s t) ! i) = map hc_basename (checks (step pf s t)) ! i"
      by simp
    also have "\<dots> = map hc_basename (checks s) ! i"
      unfolding e using that by (simp add: nth_append)
    finally show ?thesis using that by simp
  qed
  show ?thesis
    unfolding unique_name_def
  proof (intro allI impI)
    fix c' assume c': "c' < length (checks s)" and ne: "c' \<noteq> c"
    from c' length_checks_step [of s pf t] have "c' < length (checks (step pf s t))" by simp
    with assms(2) ne
    have "hc_basename (checks (step pf s t) ! c') \<noteq> hc_basename (checks (step pf s t) ! c)"
      by (simp add: unique_name_def)
    then show "hc_basename (checks s ! c') \<noteq> hc_basename (checks s ! c)"
      by (simp add: same c' assms(1))
  qed
qed

lemma unique_name_run:
  assumes "c < length (checks s)" and "unique_name (run pf s ts) c"
  shows "unique_name s c"
  using assms
proof (induction ts arbitrary: s)
  case Nil
  then show ?case by simp
next
  case (Cons t ts)
  from Cons.prems(1) length_checks_step [of s pf t]
  have c: "c < length (checks (step pf s t))" by simp
  from Cons.prems(2) have "unique_name (run pf (step pf s t) ts) c" by simp
  from Cons.IH [OF c this] show ?case by (rule unique_name_step [OF Cons.prems(1)])
qed

lemma returned_kept:
  assumes "c < length (checks s)" and "returned (checks s ! c) \<noteq> None"
  shows "returned (checks (step pf s t) ! c) = returned (checks s ! c)"
proof (cases pf s t rule: checks_step_cases)
  case same
  then show ?thesis by simp
next
  case (call timeout now)
  with assms(1) show ?thesis by (simp add: checkHealth_def Let_def nth_append)
next
  case (react c' f)
  with assms show ?thesis
    by (auto simp: checks_react nth_list_update finish_def)
qed

lemma registered_step:
  assumes c: "c < length (checks s)" and g: "registered s c"
    and u: "unique_name (step pf s t) c" and r: "returned (checks (step pf s t) ! c) = None"
  shows "registered (step pf s t) c"
proof (cases pf s t rule: checks_step_cases)
  case same
  with g show ?thesis by (simp add: registered_def)
next
  case (call timeout now)
  let ?b = "cookie_basename pf s (nextHealthCheckId s)"
  from u call c have "hc_basename (checks s ! c) \<noteq> ?b"
    by (auto simp: unique_name_def checkHealth_def Let_def nth_append
        dest!: spec [of _ "length (checks s)"])
  with call c g show ?thesis
    by (simp add: registered_def checkHealth_def Let_def nth_append)
next
  case (react c' f)
  from c u have u0: "unique_name s c" by (rule unique_name_step)
  show ?thesis
  proof (cases "c' = c")
    case False
    from u0 react(1) False have "hc_basename (checks s ! c') \<noteq> hc_basename (checks s ! c)"
      by (simp add: unique_name_def)
    then have ne: "hc_basename (f (checks s ! c')) \<noteq> hc_basename (checks s ! c)"
      by (simp add: react(4))
    from False have "c \<noteq> c'" by simp
    from react_other [where f = f and s = s and c = c and c' = c', OF react(1) this ne] g
    show ?thesis unfolding react(2) registered_def by simp
  next
    case True
    from r True react(1) have rf: "returned (finish (f (checks s ! c))) = None"
      unfolding react(2) by (simp add: checks_react)
    then have "\<not> (returned (f (checks s ! c)) = None
        \<and> (timeoutDone (f (checks s ! c))
           \<or> (creationDone (f (checks s ! c)) \<and> observationDone (f (checks s ! c)))))"
      by (auto simp: finish_def)
    with g True react(1) show ?thesis
      unfolding react(2) registered_def by (simp add: checks_react pending_react react(4))
  qed
qed

lemma linked_ok_step:
  assumes l: "linked_ok s"
  shows "linked_ok (step pf s t)"
  unfolding linked_ok_def
proof (intro allI impI)
  fix c
  assume cl: "c < length (checks (step pf s t))" and u: "unique_name (step pf s t) c"
    and r: "returned (checks (step pf s t) ! c) = None"
  show "registered (step pf s t) c"
  proof (cases "c < length (checks s)")
    case True
    have "returned (checks s ! c) = None"
    proof (rule ccontr)
      assume n: "returned (checks s ! c) \<noteq> None"
      from returned_kept [OF True n, of pf t] n r show False by simp
    qed
    moreover from True u have "unique_name s c" by (rule unique_name_step)
    ultimately have "registered s c" using l True by (simp add: linked_ok_def)
    from registered_step [OF True this u r] show ?thesis .
  next
    case False
    show ?thesis
    proof (cases pf s t rule: checks_step_cases)
      case same
      with cl False show ?thesis by simp
    next
      case (react c' f)
      with cl False show ?thesis by simp
    next
      case (call timeout now)
      with cl False have "c = length (checks s)" by (simp add: checkHealth_def Let_def)
      with call show ?thesis by (simp add: registered_def checkHealth_def Let_def)
    qed
  qed
qed

lemma linked_ok_run: "linked_ok s \<Longrightarrow> linked_ok (run pf s ts)"
  by (induction ts arbitrary: s) (simp_all add: linked_ok_step)

lemma linked_ok_new: "linked_ok (Watcher_new opts inst)"
  by (simp add: linked_ok_def Watcher_new_def)

lemma apart_unique_name:
  assumes "cookies_ok pf s" and "ids_ok s" and "c < length (checks s)"
    and "\<forall>c' < length (checks s). c' \<noteq> c \<longrightarrow>
           c' mod (MAX_SAFE_INTEGER + 1) \<noteq> c mod (MAX_SAFE_INTEGER + 1)"
  shows "unique_name s c"
  unfolding unique_name_def
proof (intro allI impI)
  fix c' assume c': "c' < length (checks s)" and ne: "c' \<noteq> c"
  with assms(4) have "c' mod (MAX_SAFE_INTEGER + 1) \<noteq> c mod (MAX_SAFE_INTEGER + 1)" by blast
  with same_basename_iff [OF assms(1,2) c' assms(3)]
  show "hc_basename (checks s ! c') \<noteq> hc_basename (checks s ! c)" by simp
qed

lemma entry_while_pending:
  assumes "s = run pf (Watcher_new opts inst) ts" and c: "c < length (checks s)"
    and a: "\<forall>c' < length (checks s). c' \<noteq> c \<longrightarrow>
           c' mod (MAX_SAFE_INTEGER + 1) \<noteq> c mod (MAX_SAFE_INTEGER + 1)"
  shows "pendingHealthChecks s (hc_basename (checks s ! c)) =
         (if returned (checks s ! c) = None then Some c else None)"
proof -
  have i: "ids_ok s" unfolding assms(1) by (intro ids_ok_run ids_ok_new)
  have n: "cookies_ok pf s" unfolding assms(1) by (intro cookies_ok_run cookies_ok_new)
  have h: "health_ok s" unfolding assms(1) by (intro health_ok_run health_ok_new)
  have l: "linked_ok s" unfolding assms(1) by (intro linked_ok_run linked_ok_new)
  from apart_unique_name [OF n i c a] have u: "unique_name s c" .
  show ?thesis
  proof (cases "returned (checks s ! c) = None")
    case True
    with l c u show ?thesis by (simp add: linked_ok_def registered_def)
  next
    case False
    have "pendingHealthChecks s (hc_basename (checks s ! c)) = None"
    proof (cases "pendingHealthChecks s (hc_basename (checks s ! c))")
      case None
      then show ?thesis .
    next
      case (Some c')
      with h have c': "c' < length (checks s)"
        "hc_basename (checks s ! c') = hc_basename (checks s ! c)"
        "returned (checks s ! c') = None"
        by (auto simp: health_ok_def registry_ok_def)
      from c'(3) False have "c' \<noteq> c" by auto
      with u c'(1,2) show ?thesis by (simp add: unique_name_def)
    qed
    with False show ?thesis by simp
  qed
qed

lemma new_call_frame:
  assumes n: "cookies_ok pf s" and i: "ids_ok s" and c: "c < length (checks s)"
    and w: "length (checks s) < c + (MAX_SAFE_INTEGER + 1)"
  shows "pendingHealthChecks (checkHealth pf timeout now s) (hc_basename (checks s ! c)) =
         pendingHealthChecks s (hc_basename (checks s ! c))"
proof -
  from n c i have b: "hc_basename (checks s ! c) = cookie_basename pf s (c mod (MAX_SAFE_INTEGER + 1))"
    by (simp add: cookies_ok_def ids_ok_def)
  from i have k: "nextHealthCheckId s = length (checks s) mod (MAX_SAFE_INTEGER + 1)"
    by (simp add: ids_ok_def)
  from apart_mod [OF c w]
  have "cookie_basename pf s (c mod (MAX_SAFE_INTEGER + 1)) \<noteq> cookie_basename pf s (nextHealthCheckId s)"
    unfolding k cookie_basename_inj .
  then show ?thesis
    unfolding b by (simp add: checkHealth_def Let_def)
qed

lemma other_task_frame:
  assumes reg: "registry_ok s" and c: "c < length (checks s)" and c': "c' < length (checks s)"
    and ne: "hc_basename (checks s ! c) \<noteq> hc_basename (checks s ! c')"
    and t: "task_of pf s c' t"
  shows "checks (step pf s t) ! c = checks s ! c
       \<and> pendingHealthChecks (step pf s t) (hc_basename (checks s ! c)) =
           pendingHealthChecks s (hc_basename (checks s ! c))"
proof (cases pf s t rule: checks_step_cases)
  case same
  then show ?thesis by simp
next
  case (call timeout now)
  with t show ?thesis by simp
next
  case (react d f)
  have nd: "hc_basename (checks s ! d) \<noteq> hc_basename (checks s ! c)"
    using react(6)
  proof (elim disjE exE conjE)
    fix i ch now
    assume "t = Emit i ch now"
      and p: "pendingHealthChecks s (path_basename pf (relativePath ch)) = Some d"
    with t have "path_basename pf (relativePath ch) = hc_basename (checks s ! c')" by simp
    moreover from reg p have "hc_basename (checks s ! d) = path_basename pf (relativePath ch)"
      by (simp add: registry_ok_def)
    ultimately show ?thesis using ne by simp
  qed (use t ne in auto)
  then have "c \<noteq> d" by auto
  moreover from nd have "hc_basename (f (checks s ! d)) \<noteq> hc_basename (checks s ! c)"
    by (simp add: react(4))
  ultimately show ?thesis
    unfolding react(2) using react_other [where f = f and s = s and c = c and c' = d, OF react(1)] by simp
qed

lemma undecided_flags:
  assumes "health_ok s" and "c < length (checks s)" and "result (checks s ! c) = None"
  shows "\<not> timeoutDone (checks s ! c)" and "\<not> observationDone (checks s ! c)"
    and "returned (checks s ! c) = None"
  using check_ok_nth [OF assms(1,2)] assms(3) by (auto simp: check_ok_def)

lemma own_task_frame:
  assumes reg: "registry_ok s" and c: "c < length (checks s)" and t: "\<not> task_of pf s c t"
  shows "checks (step pf s t) ! c = checks s ! c"
proof (cases pf s t rule: checks_step_cases)
  case same
  then show ?thesis by simp
next
  case (call timeout now)
  with c show ?thesis by (simp add: checkHealth_def Let_def nth_append)
next
  case (react d f)
  have "d \<noteq> c"
    using react(6)
  proof (elim disjE exE conjE)
    fix i ch now
    assume e: "t = Emit i ch now"
      and p: "pendingHealthChecks s (path_basename pf (relativePath ch)) = Some d"
    from reg p have "hc_basename (checks s ! d) = path_basename pf (relativePath ch)"
      by (simp add: registry_ok_def)
    with t e show ?thesis by auto
  qed (use t in auto)
  with react(1) c show ?thesis
    unfolding react(2) by (simp add: checks_react)
qed

lemma returns_on_timeout:
  assumes "health_ok s" and "c < length (checks s)"
  shows "returned (checks (step pf s (Timeout c pr)) ! c) \<noteq> None"
  using check_ok_nth [OF assms] assms(2)
  by (auto simp: onTimeout_def checks_react finish_def check_ok_def)

lemma returns_on_write:
  assumes "health_ok s" and "c < length (checks s)" and "observationDone (checks s ! c)"
  shows "returned (checks (step pf s (WriteDone c)) ! c) \<noteq> None"
    and "returned (checks (step pf s (WriteFailed c e)) ! c) \<noteq> None"
  using check_ok_nth [OF assms(1,2)] assms(2,3)
  by (auto simp: onWriteDone_def onWriteFailed_def checks_react finish_def check_ok_def)

lemma returns_on_observation:
  assumes h: "health_ok s" and n: "cookies_ok pf s" and c: "c < length (checks s)"
    and g: "registered s c" and w: "creationDone (checks s ! c)"
    and i: "i < length (slots s)" "bs_ready (slots s ! i)" and e: "event ch \<noteq> DELETE_EVENT"
    and b: "path_basename pf (relativePath ch) = hc_basename (checks s ! c)"
  shows "returned (checks (step pf s (Emit i ch now)) ! c) \<noteq> None"
proof -
  from n c have p: "startsWith (hc_basename (checks s ! c)) (healthCheckFilePrefix (options s))"
    by (simp add: cookies_ok_def cookie_basename_prefix)
  from e have ev: "event ch = ADD_EVENT \<or> event ch = CHANGE_EVENT" by (cases "event ch") auto
  from g have l: "pendingHealthChecks s (hc_basename (checks s ! c)) = Some c"
    by (simp add: registered_def)
  from i p ev b l have "step pf s (Emit i ch now) = resolveHealthCheck c now s"
    by (auto simp: onAll_def Let_def handleHealthCheckObservation_def)
  with check_ok_nth [OF h c] c w show ?thesis
    by (auto simp: resolveHealthCheck_def checks_react finish_def check_ok_def)
qed

lemma removal_step:
  assumes c: "c < length (checks s)" and r: "returned (checks s ! c) = None"
    and r': "returned (checks (step pf s t) ! c) \<noteq> None"
  shows "pendingHealthChecks (step pf s t) (hc_basename (checks s ! c)) = None"
proof (cases pf s t rule: checks_step_cases)
  case same
  with r r' show ?thesis by simp
next
  case (call timeout now)
  with c r r' show ?thesis by (simp add: checkHealth_def Let_def nth_append)
next
  case (react c' f)
  show ?thesis
  proof (cases "c' = c")
    case False
    with react(1) c r r' show ?thesis
      unfolding react(2) by (simp add: checks_react)
  next
    case True
    from r' True react(1) have "returned (finish (f (checks s ! c))) \<noteq> None"
      unfolding react(2) by (simp add: checks_react)
    moreover from r have "returned (f (checks s ! c)) = None" by (simp add: react(5))
    ultimately have "returned (f (checks s ! c)) = None
        \<and> (timeoutDone (f (checks s ! c))
           \<or> (creationDone (f (checks s ! c)) \<and> observationDone (f (checks s ! c))))"
      by (auto simp: finish_def split: if_splits)
    with True react(1) show ?thesis
      unfolding react(2) by (simp add: pending_react react(4))
  qed
qed

lemma decides_Some_result:
  assumes h: "health_ok s" and n: "cookies_ok pf s" and c: "c < length (checks s)"
    and r: "result (checks s ! c) = None"
    and l: "\<And>i ch now. t = Emit i ch now \<Longrightarrow> registered s c"
    and d: "decides pf s c t = Some x"
  shows "result (checks (step pf s t) ! c) = Some x"
proof (cases t)
  case (Timeout c' pr)
  with d c r show ?thesis
    by (auto simp: decides_def Let_def onTimeout_def checks_react split: if_splits)
next
  case (WriteFailed c' e)
  with d c r show ?thesis
    by (auto simp: decides_def Let_def onWriteFailed_def checks_react split: if_splits)
next
  case (Emit i ch now)
  from n c have "startsWith (hc_basename (checks s ! c)) (healthCheckFilePrefix (options s))"
    by (simp add: cookies_ok_def cookie_basename_prefix)
  moreover from l [OF Emit] have "pendingHealthChecks s (hc_basename (checks s ! c)) = Some c"
    by (simp add: registered_def)
  ultimately show ?thesis
    using Emit d c r undecided_flags(2) [OF h c r]
    by (auto simp: decides_def Let_def onAll_def handleHealthCheckObservation_def
        resolveHealthCheck_def checks_react split: if_splits)
qed (use d in \<open>simp_all add: decides_def Let_def\<close>)

lemma decides_registered_Some:
  assumes "decides_registered pf s c t = Some x"
  shows "decides pf s c t = Some x" and "\<And>i ch now. t = Emit i ch now \<Longrightarrow> registered s c"
  using assms by (auto simp: decides_registered_def split: task.splits if_splits)

lemma undecided_step:
  assumes h: "health_ok s" and c: "c < length (checks s)"
    and r: "result (checks s ! c) = None"
    and dn: "decides_registered pf s c t = None"
  shows "result (checks (step pf s t) ! c) = None"
proof (cases pf s t rule: checks_step_cases)
  case same
  with r show ?thesis by simp
next
  case (call timeout now)
  with c r show ?thesis by (simp add: checkHealth_def Let_def nth_append)
next
  case (react c' f)
  note u = undecided_flags [OF h c r]
  show ?thesis
  proof (cases "c' = c")
    case False
    with react(1) c r show ?thesis
      unfolding react(2) by (simp add: checks_react)
  next
    case True
    from react(6) show ?thesis
    proof (elim disjE exE conjE)
      fix pr assume "t = Timeout c' pr"
      with dn True u(1) show ?thesis
        by (simp add: decides_registered_def decides_def Let_def)
    next
      assume "t = WriteDone c'"
      with True c r show ?thesis
        by (simp add: onWriteDone_def checks_react)
    next
      fix e assume "t = WriteFailed c' e"
      with dn True r show ?thesis
        by (simp add: decides_registered_def decides_def Let_def onWriteFailed_def
            split: if_splits)
    next
      fix i ch now
      assume t: "t = Emit i ch now"
        and p: "pendingHealthChecks s (path_basename pf (relativePath ch)) = Some c'"
      from h p True have b: "path_basename pf (relativePath ch) = hc_basename (checks s ! c)"
        by (auto simp: health_ok_def registry_ok_def)
      with p True have g: "registered s c" by (simp add: registered_def)
      from dn t b g have "\<not> (i < length (slots s) \<and> bs_ready (slots s ! i))
          \<or> event ch = DELETE_EVENT"
        by (cases "event ch")
           (auto simp: decides_registered_def decides_def Let_def split: if_splits)
      with t r show ?thesis
        by (auto simp: onAll_def Let_def)
    qed
  qed
qed

lemma result_is_first_registered:
  assumes "health_ok s" and "cookies_ok pf s" and "c < length (checks s)"
    and "result (checks s ! c) = None"
  shows "result (checks (run pf s ts) ! c) = first_registered_decision pf s c ts"
  using assms
proof (induction ts arbitrary: s)
  case Nil
  then show ?case by simp
next
  case (Cons t ts)
  let ?s = "step pf s t"
  from Cons.prems(3) length_checks_step [of s pf t] have c: "c < length (checks ?s)" by simp
  show ?case
  proof (cases "decides_registered pf s c t")
    case (Some x)
    from decides_Some_result [OF Cons.prems(1-4) decides_registered_Some(2,1) [OF Some]]
    have "result (checks ?s ! c) = Some x" .
    from result_run [OF c this, of pf ts] Some show ?thesis by simp
  next
    case None
    from undecided_step [OF Cons.prems(1,3,4) None]
    have "result (checks ?s ! c) = None" .
    from Cons.IH [OF health_ok_step [OF Cons.prems(1)] cookies_ok_step [OF Cons.prems(2)] c this]
      None show ?thesis by simp
  qed
qed

lemma decides_None_keeps:
  assumes h: "health_ok s" and n: "cookies_ok pf s" and c: "c < length (checks s)"
    and r: "result (checks s ! c) = None"
    and l: "pendingHealthChecks s (hc_basename (checks s ! c)) = Some c"
    and d: "unique_name (step pf s t) c"
    and dn: "decides pf s c t = None"
  shows "result (checks (step pf s t) ! c) = None
       \<and> pendingHealthChecks (step pf s t) (hc_basename (checks (step pf s t) ! c)) = Some c"
proof (cases pf s t rule: checks_step_cases)
  case same
  with r l show ?thesis by simp
next
  case (call timeout now)
  let ?b = "cookie_basename pf s (nextHealthCheckId s)"
  from d call c have "hc_basename (checks s ! c) \<noteq> ?b"
    by (auto simp: unique_name_def checkHealth_def Let_def nth_append
        dest!: spec [of _ "length (checks s)"])
  with call c r l show ?thesis
    by (simp add: checkHealth_def Let_def nth_append)
next
  case (react c' f)
  from c d have d0: "unique_name s c" by (rule unique_name_step)
  note u = undecided_flags [OF h c r]
  show ?thesis
  proof (cases "c' = c")
    case False
    from d0 react(1) False have "hc_basename (checks s ! c') \<noteq> hc_basename (checks s ! c)"
      by (simp add: unique_name_def)
    then have ne: "hc_basename (f (checks s ! c')) \<noteq> hc_basename (checks s ! c)"
      by (simp add: react(4))
    from False have "c \<noteq> c'" by simp
    from react_other [where f = f and s = s and c = c and c' = c', OF react(1) this ne] r l
    show ?thesis unfolding react(2) by simp
  next
    case True
    from react(6) show ?thesis
    proof (elim disjE exE conjE)
      fix pr assume "t = Timeout c' pr"
      with dn True u(1) show ?thesis by (simp add: decides_def Let_def)
    next
      assume "t = WriteDone c'"
      with True c r l u show ?thesis
        by (simp add: onWriteDone_def checks_react pending_react finish_def)
    next
      fix e assume "t = WriteFailed c' e"
      with dn True r l show ?thesis
        by (simp add: decides_def Let_def onWriteFailed_def split: if_splits)
    next
      fix i ch now
      assume t: "t = Emit i ch now"
        and p: "pendingHealthChecks s (path_basename pf (relativePath ch)) = Some c'"
      from h p True have b: "path_basename pf (relativePath ch) = hc_basename (checks s ! c)"
        by (auto simp: health_ok_def registry_ok_def)
      from dn t b have "\<not> (i < length (slots s) \<and> bs_ready (slots s ! i))
          \<or> event ch = DELETE_EVENT"
        by (cases "event ch") (auto simp: decides_def Let_def split: if_splits)
      with t r l show ?thesis
        by (auto simp: onAll_def Let_def)
    qed
  qed
qed

lemma timeoutDone_step:
  assumes "c < length (checks s)" and "timeoutDone (checks s ! c)"
  shows "timeoutDone (checks (step pf s t) ! c)"
proof (cases t)
  case (Emit i ch now)
  with assms show ?thesis
    by (simp add: onAll_def health_defs checks_react nth_list_update Let_def split: option.splits)
next
  case (CheckHealth timeout now)
  with assms show ?thesis by (simp add: checkHealth_def Let_def nth_append)
qed (use assms in \<open>simp_all add: health_defs checks_react nth_list_update\<close>)

lemma timeoutDone_run:
  assumes "c < length (checks s)" and "timeoutDone (checks s ! c) \<or> (\<exists>pr. Timeout c pr \<in> set ts)"
  shows "timeoutDone (checks (run pf s ts) ! c)"
  using assms
proof (induction ts arbitrary: s)
  case Nil
  then show ?case by simp
next
  case (Cons t ts)
  from Cons.prems(1) length_checks_step [of s pf t]
  have c: "c < length (checks (step pf s t))" by simp
  have "timeoutDone (checks (step pf s t) ! c) \<or> (\<exists>pr. Timeout c pr \<in> set ts)"
  proof (cases "timeoutDone (checks s ! c)")
    case True
    from timeoutDone_step [OF Cons.prems(1) True] show ?thesis by simp
  next
    case False
    with Cons.prems(2) have "(\<exists>pr. t = Timeout c pr) \<or> (\<exists>pr. Timeout c pr \<in> set ts)" by auto
    then show ?thesis
    proof
      assume "\<exists>pr. t = Timeout c pr"
      with False Cons.prems(1) show ?thesis
        by (auto simp: onTimeout_def checks_react)
    qed simp
  qed
  from Cons.IH [OF c this] show ?case by simp
qed

lemma decides_type:
  assumes "decides pf s c t = Some r"
  shows "(type_of r = type_timeout \<longleftrightarrow> (\<exists>pr. t = Timeout c pr))
       \<and> (type_of r = type_error \<longleftrightarrow> (\<exists>e. t = WriteFailed c e))
       \<and> (type_of r = type_success \<longleftrightarrow> (\<exists>i ch now. t = Emit i ch now))"
  using assms by (cases t) (auto simp: decides_def Let_def split: if_splits)

lemma result_is_first_decision:
  assumes "health_ok s" and "cookies_ok pf s" and "c < length (checks s)"
    and "result (checks s ! c) = None"
    and "registered s c"
    and "unique_name (run pf s ts) c"
  shows "result (checks (run pf s ts) ! c) = first_decision pf s c ts"
  using assms
proof (induction ts arbitrary: s)
  case Nil
  then show ?case by simp
next
  case (Cons t ts)
  let ?s = "step pf s t"
  from Cons.prems(3) length_checks_step [of s pf t] have c: "c < length (checks ?s)" by simp
  from Cons.prems(5) have l: "pendingHealthChecks s (hc_basename (checks s ! c)) = Some c"
    by (simp add: registered_def)
  show ?case
  proof (cases "decides pf s c t")
    case (Some x)
    from decides_Some_result [OF Cons.prems(1-4) Cons.prems(5) Some]
    have "result (checks ?s ! c) = Some x" .
    from result_run [OF c this, of pf ts] Some show ?thesis by simp
  next
    case None
    from Cons.prems(6) have dr: "unique_name (run pf ?s ts) c" by simp
    with c have "unique_name ?s c" by (rule unique_name_run)
    from decides_None_keeps [OF Cons.prems(1-4) l this None]
    have "result (checks ?s ! c) = None" and "registered ?s c"
      by (simp_all add: registered_def)
    from Cons.IH [OF health_ok_step [OF Cons.prems(1)] cookies_ok_step [OF Cons.prems(2)] c this dr]
      None show ?thesis by simp
  qed
qed

lemma decides_registered_type:
  assumes "decides_registered pf s c t = Some r"
  shows "(type_of r = type_timeout \<longleftrightarrow> (\<exists>pr. t = Timeout c pr))
       \<and> (type_of r = type_error \<longleftrightarrow> (\<exists>e. t = WriteFailed c e))
       \<and> (type_of r = type_success \<longleftrightarrow> (\<exists>i ch now. t = Emit i ch now))"
  using decides_type [OF decides_registered_Some(1) [OF assms]] .

lemma first_registered_split:
  assumes "first_registered_decision pf s c ts = Some r"
  shows "\<exists>ts1 t ts2. ts = ts1 @ t # ts2 \<and> first_registered_decision pf s c ts1 = None
           \<and> decides_registered pf (run pf s ts1) c t = Some r"
  using assms
proof (induction ts arbitrary: s)
  case Nil
  then show ?case by simp
next
  case (Cons t ts)
  show ?case
  proof (cases "decides_registered pf s c t")
    case (Some x)
    with Cons.prems have "x = r" by simp
    with Some have "t # ts = [] @ t # ts \<and> first_registered_decision pf s c [] = None
        \<and> decides_registered pf (run pf s []) c t = Some r"
      by simp
    then show ?thesis by blast
  next
    case None
    with Cons.prems have "first_registered_decision pf (step pf s t) c ts = Some r" by simp
    from Cons.IH [OF this] obtain ts1 t' ts2 where
      "ts = ts1 @ t' # ts2" "first_registered_decision pf (step pf s t) c ts1 = None"
      "decides_registered pf (run pf (step pf s t) ts1) c t' = Some r"
      by blast
    with None have "t # ts = (t # ts1) @ t' # ts2
        \<and> first_registered_decision pf s c (t # ts1) = None
        \<and> decides_registered pf (run pf s (t # ts1)) c t' = Some r"
      by simp
    then show ?thesis by blast
  qed
qed

subsection \<open>C1: checkHealth returns what the first signal decided\<close>


lemma length_checks_onAll [simp]: "length (checks (onAll pf i ch now s)) = length (checks s)"
  by (simp add: onAll_def Let_def)

lemma one_check_reached:
  "one_check = run posix (Watcher_new demo_options 0) ([Watch [], Ready 0] @ [CheckHealth 1000 10])"
  unfolding run_append by (simp only: one_check_def ready_watcher_def fresh_def run_Cons run_Nil)

lemma two_checks_step: "two_checks = step posix one_check (CheckHealth 1000 11)"
  by (simp only: two_checks_def one_check_def run_Cons run_Nil)


subsection \<open>C6: the registry of pending checks\<close>

text \<open>
  Claim C6. In every state reached from a new Watcher:

  \<^item> a call of \<open>checkHealth\<close> stores an entry under its own basename on entry;
  \<^item> the registry maps a basename to one call, a call of that basename that has not
    returned;
  \<^item> a call returns exactly when its race is settled (its timer has fired, or its write
    has settled and its observation has come), its result is decided by then, and no
    entry names it afterwards;
  \<^item> whatever the result is going to be, the timer firing makes the call return, and so
    does the write settling after the observation, and the observation after the write;
  \<^item> the step in which a call returns leaves no entry under its basename;
  \<^item> when no other call of the run is a multiple of \<open>2^53\<close> calls away from it, the entry
    of a call is there exactly as long as the call has not returned;
  \<^item> an event that is not the call's own leaves the call as it is;
  \<^item> two calls that are not a multiple of \<open>2^53\<close> calls apart have different basenames,
    and an event that belongs to one of them (its timer, the settling of its write, a
    change with its basename) leaves the other call and its entry as they are;
  \<^item> a further call of \<open>checkHealth\<close> leaves the entries of the last \<open>2^53 - 1\<close> calls as
    they are.
\<close>

theorem registry_tracks_pending_checks:
  assumes "s = run pf (Watcher_new opts inst) ts"
  shows "pendingHealthChecks (step pf s (CheckHealth timeout now))
           (cookie_basename pf s (nextHealthCheckId s)) = Some (length (checks s))
       \<and> hc_basename (checks (step pf s (CheckHealth timeout now)) ! length (checks s)) =
           cookie_basename pf s (nextHealthCheckId s)
       \<and> (\<forall>b c. pendingHealthChecks s b = Some c \<longrightarrow>
             c < length (checks s) \<and> hc_basename (checks s ! c) = b
             \<and> returned (checks s ! c) = None)
       \<and> (\<forall>c < length (checks s).
             returned (checks s ! c) \<noteq> None \<longleftrightarrow>
             timeoutDone (checks s ! c)
             \<or> (creationDone (checks s ! c) \<and> observationDone (checks s ! c)))
       \<and> (\<forall>c < length (checks s). returned (checks s ! c) \<noteq> None \<longrightarrow>
             result (checks s ! c) \<noteq> None \<and> (\<forall>b. pendingHealthChecks s b \<noteq> Some c))
       \<and> (\<forall>c < length (checks s). \<forall>pr.
             returned (checks (step pf s (Timeout c pr)) ! c) \<noteq> None)
       \<and> (\<forall>c < length (checks s). observationDone (checks s ! c) \<longrightarrow>
             returned (checks (step pf s (WriteDone c)) ! c) \<noteq> None
             \<and> (\<forall>e. returned (checks (step pf s (WriteFailed c e)) ! c) \<noteq> None))
       \<and> (\<forall>c < length (checks s). \<forall>i ch now.
             registered s c \<longrightarrow> creationDone (checks s ! c) \<longrightarrow>
             i < length (slots s) \<longrightarrow> bs_ready (slots s ! i) \<longrightarrow> event ch \<noteq> DELETE_EVENT \<longrightarrow>
             path_basename pf (relativePath ch) = hc_basename (checks s ! c) \<longrightarrow>
             returned (checks (step pf s (Emit i ch now)) ! c) \<noteq> None)
       \<and> (\<forall>c < length (checks s). \<forall>t.
             returned (checks s ! c) = None \<longrightarrow> returned (checks (step pf s t) ! c) \<noteq> None \<longrightarrow>
             pendingHealthChecks (step pf s t) (hc_basename (checks s ! c)) = None)
       \<and> (\<forall>c < length (checks s).
             (\<forall>c' < length (checks s). c' \<noteq> c \<longrightarrow> c' mod 2 ^ 53 \<noteq> c mod 2 ^ 53) \<longrightarrow>
             pendingHealthChecks s (hc_basename (checks s ! c)) =
               (if returned (checks s ! c) = None then Some c else None))
       \<and> (\<forall>c < length (checks s). \<forall>t.
             \<not> task_of pf s c t \<longrightarrow> checks (step pf s t) ! c = checks s ! c)
       \<and> (\<forall>c < length (checks s). \<forall>c' < length (checks s).
             c mod 2 ^ 53 \<noteq> c' mod 2 ^ 53 \<longrightarrow>
             hc_basename (checks s ! c) \<noteq> hc_basename (checks s ! c')
             \<and> (\<forall>t. task_of pf s c' t \<longrightarrow>
                   checks (step pf s t) ! c = checks s ! c
                   \<and> pendingHealthChecks (step pf s t) (hc_basename (checks s ! c)) =
                       pendingHealthChecks s (hc_basename (checks s ! c))))
       \<and> (\<forall>c < length (checks s). length (checks s) < c + 2 ^ 53 \<longrightarrow>
             pendingHealthChecks (step pf s (CheckHealth timeout now)) (hc_basename (checks s ! c)) =
               pendingHealthChecks s (hc_basename (checks s ! c)))"
proof -
  have h: "health_ok s" unfolding assms by (intro health_ok_run health_ok_new)
  then have reg: "registry_ok s" by (simp add: health_ok_def)
  have i: "ids_ok s" unfolding assms by (intro ids_ok_run ids_ok_new)
  have n: "cookies_ok pf s" unfolding assms by (intro cookies_ok_run cookies_ok_new)
  have 1: "pendingHealthChecks (step pf s (CheckHealth timeout now))
           (cookie_basename pf s (nextHealthCheckId s)) = Some (length (checks s))"
    and 2: "hc_basename (checks (step pf s (CheckHealth timeout now)) ! length (checks s)) =
           cookie_basename pf s (nextHealthCheckId s)"
    by (simp_all add: checkHealth_def Let_def)
  from reg have 3: "\<forall>b c. pendingHealthChecks s b = Some c \<longrightarrow>
             c < length (checks s) \<and> hc_basename (checks s ! c) = b
             \<and> returned (checks s ! c) = None"
    by (simp add: registry_ok_def)
  have 4: "\<forall>c < length (checks s).
             returned (checks s ! c) \<noteq> None \<longleftrightarrow>
             timeoutDone (checks s ! c)
             \<or> (creationDone (checks s ! c) \<and> observationDone (checks s ! c))"
    using check_ok_nth [OF h] by (auto simp: check_ok_def)
  have 5: "\<forall>c < length (checks s). returned (checks s ! c) \<noteq> None \<longrightarrow>
             result (checks s ! c) \<noteq> None \<and> (\<forall>b. pendingHealthChecks s b \<noteq> Some c)"
  proof (intro allI impI)
    fix c assume c: "c < length (checks s)" and r: "returned (checks s ! c) \<noteq> None"
    from check_ok_nth [OF h c] r have "result (checks s ! c) \<noteq> None"
      by (simp add: check_ok_def)
    moreover from reg r have "\<forall>b. pendingHealthChecks s b \<noteq> Some c"
      by (auto simp: registry_ok_def)
    ultimately show "result (checks s ! c) \<noteq> None \<and> (\<forall>b. pendingHealthChecks s b \<noteq> Some c)" ..
  qed
  have 6: "\<forall>c < length (checks s). \<forall>pr.
             returned (checks (step pf s (Timeout c pr)) ! c) \<noteq> None"
    using returns_on_timeout [OF h] by blast
  have 7: "\<forall>c < length (checks s). observationDone (checks s ! c) \<longrightarrow>
             returned (checks (step pf s (WriteDone c)) ! c) \<noteq> None
             \<and> (\<forall>e. returned (checks (step pf s (WriteFailed c e)) ! c) \<noteq> None)"
    using returns_on_write [OF h] by blast
  have 8: "\<forall>c < length (checks s). \<forall>i ch now.
             registered s c \<longrightarrow> creationDone (checks s ! c) \<longrightarrow>
             i < length (slots s) \<longrightarrow> bs_ready (slots s ! i) \<longrightarrow> event ch \<noteq> DELETE_EVENT \<longrightarrow>
             path_basename pf (relativePath ch) = hc_basename (checks s ! c) \<longrightarrow>
             returned (checks (step pf s (Emit i ch now)) ! c) \<noteq> None"
    using returns_on_observation [OF h n] by blast
  have 9: "\<forall>c < length (checks s). \<forall>t.
             returned (checks s ! c) = None \<longrightarrow> returned (checks (step pf s t) ! c) \<noteq> None \<longrightarrow>
             pendingHealthChecks (step pf s t) (hc_basename (checks s ! c)) = None"
    using removal_step by blast
  have 10: "\<forall>c < length (checks s).
             (\<forall>c' < length (checks s). c' \<noteq> c \<longrightarrow>
                c' mod (MAX_SAFE_INTEGER + 1) \<noteq> c mod (MAX_SAFE_INTEGER + 1)) \<longrightarrow>
             pendingHealthChecks s (hc_basename (checks s ! c)) =
               (if returned (checks s ! c) = None then Some c else None)"
    using entry_while_pending [OF assms] by blast
  have 11: "\<forall>c < length (checks s). \<forall>t.
             \<not> task_of pf s c t \<longrightarrow> checks (step pf s t) ! c = checks s ! c"
    using own_task_frame [OF reg] by blast
  have 12: "\<forall>c < length (checks s). \<forall>c' < length (checks s).
             c mod (MAX_SAFE_INTEGER + 1) \<noteq> c' mod (MAX_SAFE_INTEGER + 1) \<longrightarrow>
             hc_basename (checks s ! c) \<noteq> hc_basename (checks s ! c')
             \<and> (\<forall>t. task_of pf s c' t \<longrightarrow>
                   checks (step pf s t) ! c = checks s ! c
                   \<and> pendingHealthChecks (step pf s t) (hc_basename (checks s ! c)) =
                       pendingHealthChecks s (hc_basename (checks s ! c)))"
  proof (intro allI impI)
    fix c c'
    assume c: "c < length (checks s)" and c': "c' < length (checks s)"
      and m: "c mod (MAX_SAFE_INTEGER + 1) \<noteq> c' mod (MAX_SAFE_INTEGER + 1)"
    from same_basename_iff [OF n i c c'] m
    have ne: "hc_basename (checks s ! c) \<noteq> hc_basename (checks s ! c')" by simp
    from other_task_frame [OF reg c c' ne]
    show "hc_basename (checks s ! c) \<noteq> hc_basename (checks s ! c')
        \<and> (\<forall>t. task_of pf s c' t \<longrightarrow>
              checks (step pf s t) ! c = checks s ! c
              \<and> pendingHealthChecks (step pf s t) (hc_basename (checks s ! c)) =
                  pendingHealthChecks s (hc_basename (checks s ! c)))"
      using ne by blast
  qed
  have 13: "\<forall>c < length (checks s). length (checks s) < c + (MAX_SAFE_INTEGER + 1) \<longrightarrow>
             pendingHealthChecks (step pf s (CheckHealth timeout now)) (hc_basename (checks s ! c)) =
               pendingHealthChecks s (hc_basename (checks s ! c))"
    using new_call_frame [OF n i] by simp
  note parts = 1 2 3 4 5 6 7 8 9 10 [unfolded two_to_53] 11 12 [unfolded two_to_53]
    13 [unfolded two_to_53]
  show ?thesis by (intro conjI parts)
qed

theorem registry_tracks_pending_checks_witness:
  "pendingHealthChecks (step posix two_checks (CheckHealth 500 20)) ''.metro-health-check-4242-0-2''
     = Some 2
   \<and> pendingHealthChecks two_checks ''.metro-health-check-4242-0-0'' = Some 0
   \<and> returned (checks two_checks ! 1) = None
   \<and> checks (step posix two_checks (Emit 0 cookie_added 15)) ! 1 = checks two_checks ! 1
   \<and> pendingHealthChecks (step posix two_checks (Emit 0 cookie_added 15))
        ''.metro-health-check-4242-0-1'' = Some 1
   \<and> pendingHealthChecks (step posix two_checks (Timeout 0 None))
        ''.metro-health-check-4242-0-0'' = None
   \<and> pendingHealthChecks failed_write ''.metro-health-check-4242-0-0'' = Some 0
   \<and> pendingHealthChecks (step posix failed_write (Timeout 0 None))
        ''.metro-health-check-4242-0-0'' = None
   \<and> pendingHealthChecks (step posix cookie_written (Emit 0 cookie_added 15))
        ''.metro-health-check-4242-0-0'' = None"
proof -
  note T = registry_tracks_pending_checks [OF two_checks_reached, where timeout = 500 and now = 20]
  note F = registry_tracks_pending_checks [OF failed_write_reached, where timeout = 500 and now = 20]
  note W = registry_tracks_pending_checks [OF cookie_written_reached, where timeout = 500 and now = 20]
  have b: "cookie_basename posix two_checks (nextHealthCheckId two_checks) = ''.metro-health-check-4242-0-2''"
    by (simp add: two_checks_eq ready_watcher_eq) (simp add: exec_defs)
  have l: "length (checks two_checks) = 2" by (simp add: two_checks_eq)
  have l0: "0 < length (checks two_checks)" and l1: "1 < length (checks two_checks)"
    by (simp_all add: two_checks_eq)
  have n: "hc_basename (checks two_checks ! 0) = ''.metro-health-check-4242-0-0''"
    "hc_basename (checks two_checks ! 1) = ''.metro-health-check-4242-0-1''"
    "returned (checks two_checks ! 0) = None"
    by (simp_all add: two_checks_eq)
  from T [THEN conjunct1] have 1: "pendingHealthChecks (step posix two_checks (CheckHealth 500 20))
      ''.metro-health-check-4242-0-2'' = Some 2"
    unfolding b l .
  have a0: "\<forall>c' < length (checks two_checks). c' \<noteq> 0 \<longrightarrow> c' mod 2 ^ 53 \<noteq> (0::nat) mod 2 ^ 53"
    unfolding l by (auto simp: less_Suc_eq numeral_2_eq_2)
  note T10 = T [THEN conjunct2, THEN conjunct2, THEN conjunct2, THEN conjunct2, THEN conjunct2,
      THEN conjunct2, THEN conjunct2, THEN conjunct2, THEN conjunct2, THEN conjunct1]
  from T10 [rule_format, OF l0 a0 [rule_format]] n
  have 2: "pendingHealthChecks two_checks ''.metro-health-check-4242-0-0'' = Some 0"
    by simp
  have "pendingHealthChecks two_checks ''.metro-health-check-4242-0-1'' = Some 1"
    by (simp add: two_checks_eq)
  with T [THEN conjunct2, THEN conjunct2, THEN conjunct1, rule_format,
      of "''.metro-health-check-4242-0-1''" 1]
  have 3: "returned (checks two_checks ! 1) = None" by simp
  have t: "task_of posix two_checks 0 (Emit 0 cookie_added 15)"
    by (simp add: two_checks_eq cookie_added_def posix_def posix_basename_def)
  have m: "(1::nat) mod 2 ^ 53 \<noteq> 0 mod 2 ^ 53" by simp
  note T12 = T [THEN conjunct2, THEN conjunct2, THEN conjunct2, THEN conjunct2, THEN conjunct2,
      THEN conjunct2, THEN conjunct2, THEN conjunct2, THEN conjunct2, THEN conjunct2,
      THEN conjunct2, THEN conjunct1]
  from T12 [rule_format, OF l1 l0 m, THEN conjunct2, rule_format, OF t] n
  have 4: "checks (step posix two_checks (Emit 0 cookie_added 15)) ! 1 = checks two_checks ! 1"
    and "pendingHealthChecks (step posix two_checks (Emit 0 cookie_added 15))
        ''.metro-health-check-4242-0-1'' = pendingHealthChecks two_checks ''.metro-health-check-4242-0-1''"
    by simp_all
  then have 5: "pendingHealthChecks (step posix two_checks (Emit 0 cookie_added 15))
        ''.metro-health-check-4242-0-1'' = Some 1"
    by (simp add: two_checks_eq)
  note T6 = T [THEN conjunct2, THEN conjunct2, THEN conjunct2, THEN conjunct2, THEN conjunct2,
      THEN conjunct1]
  note T9 = T [THEN conjunct2, THEN conjunct2, THEN conjunct2, THEN conjunct2, THEN conjunct2,
      THEN conjunct2, THEN conjunct2, THEN conjunct2, THEN conjunct1]
  from T9 [rule_format, OF l0 n(3) T6 [rule_format, OF l0]] n(1)
  have 6: "pendingHealthChecks (step posix two_checks (Timeout 0 None))
        ''.metro-health-check-4242-0-0'' = None"
    by simp
  have fl: "0 < length (checks failed_write)" and fr: "returned (checks failed_write ! 0) = None"
    and fn: "hc_basename (checks failed_write ! 0) = ''.metro-health-check-4242-0-0''"
    by (simp_all add: failed_write_eq)
  have fa: "\<forall>c' < length (checks failed_write). c' \<noteq> 0 \<longrightarrow> c' mod 2 ^ 53 \<noteq> (0::nat) mod 2 ^ 53"
    by (simp add: failed_write_eq)
  note F10 = F [THEN conjunct2, THEN conjunct2, THEN conjunct2, THEN conjunct2, THEN conjunct2,
      THEN conjunct2, THEN conjunct2, THEN conjunct2, THEN conjunct2, THEN conjunct1]
  from F10 [rule_format, OF fl fa [rule_format]] fr fn
  have 7: "pendingHealthChecks failed_write ''.metro-health-check-4242-0-0'' = Some 0"
    by simp
  note F6 = F [THEN conjunct2, THEN conjunct2, THEN conjunct2, THEN conjunct2, THEN conjunct2,
      THEN conjunct1]
  note F9 = F [THEN conjunct2, THEN conjunct2, THEN conjunct2, THEN conjunct2, THEN conjunct2,
      THEN conjunct2, THEN conjunct2, THEN conjunct2, THEN conjunct1]
  from F9 [rule_format, OF fl fr F6 [rule_format, OF fl]] fn
  have 8: "pendingHealthChecks (step posix failed_write (Timeout 0 None))
        ''.metro-health-check-4242-0-0'' = None"
    by simp
  have wl: "0 < length (checks cookie_written)" and wr: "returned (checks cookie_written ! 0) = None"
    and wn: "hc_basename (checks cookie_written ! 0) = ''.metro-health-check-4242-0-0''"
    and wg: "registered cookie_written 0" and wc: "creationDone (checks cookie_written ! 0)"
    and wi: "0 < length (slots cookie_written)" "bs_ready (slots cookie_written ! 0)"
    by (simp_all add: cookie_written_eq ready_watcher_eq registered_def)
  have we: "event cookie_added \<noteq> DELETE_EVENT"
    and wb: "path_basename posix (relativePath cookie_added) = hc_basename (checks cookie_written ! 0)"
    by (simp_all add: cookie_added_def cookie_written_eq posix_def posix_basename_def)
  note W8 = W [THEN conjunct2, THEN conjunct2, THEN conjunct2, THEN conjunct2, THEN conjunct2,
      THEN conjunct2, THEN conjunct2, THEN conjunct1]
  note W9 = W [THEN conjunct2, THEN conjunct2, THEN conjunct2, THEN conjunct2, THEN conjunct2,
      THEN conjunct2, THEN conjunct2, THEN conjunct2, THEN conjunct1]
  from W9 [rule_format, OF wl wr W8 [rule_format, OF wl wg wc wi we wb]] wn
  have 9: "pendingHealthChecks (step posix cookie_written (Emit 0 cookie_added 15))
        ''.metro-health-check-4242-0-0'' = None"
    by simp
  from 1 2 3 4 5 6 7 8 9 show ?thesis by simp
qed

end
